theory Spec2Isabelle
  imports Complex_Main "HOL-Library.Word"
begin

unbundle bit_operations_syntax

section \<open>Common result types\<close>

text \<open>
  The C++ exceptions raised by the engine.  \<open>invalid_argument\<close> carries the message of
  \<^verbatim>\<open>std::invalid_argument\<close>; \<open>attribute_not_set\<close> is the failure of the typed getter
  \<^verbatim>\<open>getAttribute<T>\<close> on an element that does not store the attribute; \<open>regex_error\<close> is
  the failure of the \<^verbatim>\<open>std::regex\<close> constructor; \<open>bad_variant_access\<close> is \<^verbatim>\<open>std::get\<close> on a
  variant that holds another alternative.
\<close>

datatype exn = invalid_argument string | attribute_not_set | regex_error | bad_variant_access

text \<open>
  Result of a value-returning function: it returns a value, leaves by an exception, or
  runs into behaviour the language leaves undefined (a function that ends without a
  \<^verbatim>\<open>return\<close>, a null or dangling dereference, \<^verbatim>\<open>pop_back\<close> on an empty vector).
\<close>

datatype 'a result = Returned 'a | Threw exn | Undef

section \<open>Value parsers\<close>

subsection \<open>String normalisation\<close>

text \<open>
  \<^verbatim>\<open>std::regex_replace(s, std::regex("\\s+"), "")\<close> deletes every white-space character;
  \<^verbatim>\<open>std::tolower\<close> (C locale) maps \<open>A\<close>..\<open>Z\<close> to \<open>a\<close>..\<open>z\<close> and leaves every other byte.
\<close>

definition isspace :: "char \<Rightarrow> bool" where
  "isspace c = (c \<in> set [CHR '' '', CHR 0x09, CHR 0x0A, CHR 0x0B, CHR 0x0C, CHR 0x0D])"

definition tolower :: "char \<Rightarrow> char" where
  "tolower c = (case map_of (zip ''ABCDEFGHIJKLMNOPQRSTUVWXYZ'' ''abcdefghijklmnopqrstuvwxyz'') c of
                  Some l \<Rightarrow> l | None \<Rightarrow> c)"

definition strip_spaces :: "string \<Rightarrow> string" where
  "strip_spaces s = filter (\<lambda>c. \<not> isspace c) s"

definition lowercase :: "string \<Rightarrow> string" where
  "lowercase s = map tolower s"

subsection \<open>Colours\<close>

type_synonym colorMap = "(string \<times> 64 word) list"

text \<open>
  The static colour table, in the order of the initialiser list.  The table is an
  \<^verbatim>\<open>unordered_map\<close>: \<open>map_of\<close> finds the first entry of a key, as the initialiser-list
  constructor keeps the first of two equal keys.
\<close>

definition colorFactory :: colorMap where
  "colorFactory = [
    (''aliceblue'', 0xF0F8FF), (''antiquewhite'', 0xFAEBD7), (''aqua'', 0x00FFFF),
    (''aquamarine'', 0x7FFFD4), (''azure'', 0xF0FFFF), (''beige'', 0xF5F5DC),
    (''bisque'', 0xFFE4C4), (''black'', 0x000000), (''blanchedalmond'', 0xFFEBCD),
    (''blue'', 0x0000FF), (''blueviolet'', 0x8A2BE2), (''brown'', 0xA52A2A),
    (''burlyWood'', 0xDEB887), (''cadetblue'', 0x5F9EA0), (''chartreuse'', 0x7FFF00),
    (''chocolate'', 0xD2691E), (''coral'', 0xFF7F50), (''cornflowerblue'', 0x6495ED),
    (''cornsilk'', 0xFFF8DC), (''crimson'', 0xDC143C), (''cyan'', 0x00FFFF),
    (''darkblue'', 0x00008B), (''darkcyan'', 0x008B8B), (''darkgoldenrod'', 0xB8860B),
    (''darkgray'', 0xA9A9A9), (''darkgrey'', 0xA9A9A9), (''darkgreen'', 0x006400),
    (''darkkhaki'', 0xBDB76B), (''darkmagenta'', 0x8B008B), (''darkolivegreen'', 0x556B2F),
    (''darkorange'', 0xFF8C00), (''darkorchid'', 0x9932CC), (''darkred'', 0x8B0000),
    (''darksalmon'', 0xE9967A), (''darkseagreen'', 0x8FBC8F), (''darkslateblue'', 0x483D8B),
    (''darkslategray'', 0x2F4F4F), (''darkslategrey'', 0x2F4F4F), (''darkturquoise'', 0x00CED1),
    (''darkviolet'', 0x9400D3), (''deeppink'', 0xFF1493), (''deepskyblue'', 0x00BFFF),
    (''dimgray'', 0x696969), (''dimgrey'', 0x696969), (''dodgerblue'', 0x1E90FF),
    (''firebrick'', 0xB22222), (''floralwhite'', 0xFFFAF0), (''forestgreen'', 0x228B22),
    (''fuchsia'', 0xFF00FF), (''gainsboro'', 0xDCDCDC), (''ghostwhite'', 0xF8F8FF),
    (''gold'', 0xFFD700), (''goldenrod'', 0xDAA520), (''gray'', 0x808080),
    (''grey'', 0x808080), (''green'', 0x008000), (''greenyellow'', 0xADFF2F),
    (''honeydew'', 0xF0FFF0), (''hotpink'', 0xFF69B4), (''indianred'', 0xCD5C5C),
    (''indigo'', 0x4B0082), (''ivory'', 0xFFFFF0), (''khaki'', 0xF0E68C),
    (''lavender'', 0xE6E6FA), (''lavenderblush'', 0xFFF0F5), (''lawngreen'', 0x7CFC00),
    (''lemonchiffon'', 0xFFFACD), (''lightblue'', 0xADD8E6), (''lightcoral'', 0xF08080),
    (''lightcyan'', 0xE0FFFF), (''lightgoldenrodyellow'', 0xFAFAD2), (''lightgray'', 0xD3D3D3),
    (''lightgrey'', 0xD3D3D3), (''lightgreen'', 0x90EE90), (''lightpink'', 0xFFB6C1),
    (''lightdalmon'', 0xFFA07A), (''lightseagreen'', 0x20B2AA), (''lightskyblue'', 0x87CEFA),
    (''lightslategray'', 0x778899), (''lightslategrey'', 0x778899), (''lightsteelblue'', 0xB0C4DE),
    (''lightyellow'', 0xFFFFE0), (''lime'', 0x00FF00), (''limegreen'', 0x32CD32),
    (''linen'', 0xFAF0E6), (''magenta'', 0xFF00FF), (''maroon'', 0x800000),
    (''mediumaquamarine'', 0x66CDAA), (''mediumblue'', 0x0000CD), (''mediumorchid'', 0xBA55D3),
    (''mediumpurple'', 0x9370DB), (''mediumseagreen'', 0x3CB371), (''mediumslateblue'', 0x7B68EE),
    (''mediumspringgreen'', 0x00FA9A), (''mediumturquoise'', 0x48D1CC), (''mediumvioletred'', 0xC71585),
    (''midnightblue'', 0x191970), (''mintcream'', 0xF5FFFA), (''mistyrose'', 0xFFE4E1),
    (''moccasin'', 0xFFE4B5), (''navajowhite'', 0xFFDEAD), (''navy'', 0x000080),
    (''oldlace'', 0xFDF5E6), (''olive'', 0x808000), (''olivedrab'', 0x6B8E23),
    (''orange'', 0xFFA500), (''orangered'', 0xFF4500), (''orchid'', 0xDA70D6),
    (''palegoldenrod'', 0xEEE8AA), (''palegreen'', 0x98FB98), (''paleturquoise'', 0xAFEEEE),
    (''palevioletred'', 0xDB7093), (''papayawhip'', 0xFFEFD5), (''peachpuff'', 0xFFDAB9),
    (''peru'', 0xCD853F), (''pink'', 0xFFC0CB), (''plum'', 0xDDA0DD),
    (''powderblue'', 0xB0E0E6), (''purple'', 0x800080), (''rebeccapurple'', 0x663399),
    (''red'', 0xFF0000), (''rosybrown'', 0xBC8F8F), (''royalblue'', 0x4169E1),
    (''saddlebrown'', 0x8B4513), (''salmon'', 0xFA8072), (''sandybrown'', 0xF4A460),
    (''seagreen'', 0x2E8B57), (''seashell'', 0xFFF5EE), (''sienna'', 0xA0522D),
    (''silver'', 0xC0C0C0), (''skyblue'', 0x87CEEB), (''slateblue'', 0x6A5ACD),
    (''slategray'', 0x708090), (''slategrey'', 0x708090), (''snow'', 0xFFFAFA),
    (''springgreen'', 0x00FF7F), (''steelblue'', 0x4682B4), (''tan'', 0xD2B48C),
    (''teal'', 0x008080), (''thistle'', 0xD8BFD8), (''tomato'', 0xFF6347),
    (''turquoise'', 0x40E0D0), (''violet'', 0xEE82EE), (''wheat'', 0xF5DEB3),
    (''white'', 0xFFFFFF), (''whitesmoke'', 0xF5F5F5), (''yellow'', 0xFFFF00),
    (''yellowgreen'', 0x9ACD32)]"

datatype colorFormat = rgb | hsl | name

text \<open>
  A colour value: \<open>cvalue\<close> is the array \<^verbatim>\<open>double value[4]\<close>.  The three channel entries are
  \<^verbatim>\<open>static_cast<double>\<close> of an \<^verbatim>\<open>unsigned long\<close> below 256, which is exact.
\<close>

record colorNF =
  coption :: colorFormat
  cvalue :: "real list"

text \<open>\<^verbatim>\<open>colorNF::colorIndex\<close>: the iterator is the entry found, \<open>None\<close> is \<^verbatim>\<open>end()\<close>.\<close>

definition colorIndex :: "string \<Rightarrow> 64 word option" where
  "colorIndex colorName = map_of colorFactory (lowercase (strip_spaces colorName))"

definition colorNF_of_string :: "string \<Rightarrow> colorNF" where
  "colorNF_of_string sOption =
     (let color = (case colorIndex sOption of Some c \<Rightarrow> c | None \<Rightarrow> 0)
      in \<lparr> coption = name,
           cvalue = [ real (unat (drop_bit 24 (color AND 0xFF000000))),
                      real (unat (drop_bit 16 (color AND 0x00FF0000))),
                      real (unat (drop_bit 8 (color AND 0x0000FF00))),
                      1 ] \<rparr>)"

text \<open>\<^verbatim>\<open>colorNF(colorMap::const_iterator it)\<close>, used by the markup parser.\<close>

definition colorNF_of_entry :: "64 word \<Rightarrow> colorNF" where
  "colorNF_of_entry color =
     \<lparr> coption = name,
       cvalue = [ real (unat (drop_bit 24 (color AND 0xFF000000))),
                  real (unat (drop_bit 16 (color AND 0x00FF0000))),
                  real (unat (drop_bit 8 (color AND 0x0000FF00))),
                  1 ] \<rparr>"

subsection \<open>Enumerated options\<close>

text \<open>
  \<^verbatim>\<open>strToEnum\<close> looks the normalised option up, stores the hit in the local \<^verbatim>\<open>ret\<close> and
  throws on a miss.  The body ends after the \<^verbatim>\<open>if\<close>/\<^verbatim>\<open>else\<close>: there is no \<^verbatim>\<open>return\<close>
  statement, so on a hit control flows off the end of a function returning
  \<^verbatim>\<open>uint8_t\<close>.
\<close>

definition strToEnum :: "string \<Rightarrow> (string \<times> 8 word) list \<Rightarrow> string \<Rightarrow> 8 word result" where
  "strToEnum sListName optionMap sOption =
     (let sTmpKey = lowercase (strip_spaces sOption)
      in case map_of optionMap sTmpKey of
           Some ret \<Rightarrow> Undef
         | None \<Rightarrow> Threw (invalid_argument
                      (sListName @ '' attribute string option not found: '' @ sOption)))"

datatype display_optionEnum = in_line | block | none

text \<open>
  The numbering of the enumeration constants is declared in the header; \<open>enc\<close> stands
  for it.  \<open>display_of_string\<close> is the constructor \<^verbatim>\<open>display::display(const string &)\<close>:
  its value is the \<^verbatim>\<open>static_cast\<close> of what \<^verbatim>\<open>strToEnum\<close> returns.
\<close>

definition display_enumMap :: "(display_optionEnum \<Rightarrow> 8 word) \<Rightarrow> (string \<times> 8 word) list" where
  "display_enumMap enc = [(''inline'', enc in_line), (''block'', enc block), (''none'', enc none)]"

definition display_of_string :: "(display_optionEnum \<Rightarrow> 8 word) \<Rightarrow> string \<Rightarrow> 8 word result" where
  "display_of_string enc sOption = strToEnum ''display'' (display_enumMap enc) sOption"

section \<open>Element tree, registry and string index\<close>

subsection \<open>Data model\<close>

text \<open>
  An element is identified by its handle, the numeric value of its address
  (\<^verbatim>\<open>m_self\<close>); a null pointer is \<open>None\<close>.
\<close>

type_synonym handle = nat

text \<open>The element classes of \<^verbatim>\<open>objectFactoryMap\<close>, and the text node created for a colour token.\<close>

datatype elementClass = BR | H1 | H2 | H3 | PARAGRAPH | DIV | SPAN | UL | OL | LI | IMAGE | textNode

text \<open>
  The event categories.  \<open>paint\<close> is an event type (see \<^verbatim>\<open>Viewer::dispatchEvent\<close>) that has no
  listener vector in \<^verbatim>\<open>getEventVector\<close>.
\<close>

datatype eventType =
  paint | focus | blur | resize | keydown | keyup | keypress | mouseenter | mouseleave
  | mousemove | mousedown | mouseup | click | dblclick | contextmenu | wheel

text \<open>
  An \<^verbatim>\<open>eventHandler\<close> is a \<^verbatim>\<open>std::function\<close>: it holds a plain function pointer (its address),
  some other callable (a lambda object, a bind expression), or nothing.
\<close>

datatype eventHandler = FnPtr nat | Callable nat | EmptyFn

text \<open>
  The fields of \<^verbatim>\<open>Element\<close> that the modelled operations read or write.  Of the attribute
  map only the entries of type \<^verbatim>\<open>indexBy\<close> and \<^verbatim>\<open>textColor\<close> are kept; \<open>data_string\<close> is the
  payload \<^verbatim>\<open>data<std::string>()\<close>; \<open>listeners t\<close> is the vector \<^verbatim>\<open>on<t>\<close>.  The type of
  \<^verbatim>\<open>m_childCount\<close> is declared in the header; no modelled operation reads it.
\<close>

record Element =
  eclass :: elementClass
  m_parent :: "handle option"
  m_firstChild :: "handle option"
  m_lastChild :: "handle option"
  m_nextSibling :: "handle option"
  m_previousSibling :: "handle option"
  m_childCount :: int
  attr_indexBy :: "string option"
  attr_textColor :: "colorNF option"
  data_string :: "string list"
  listeners :: "eventType \<Rightarrow> eventHandler list"

text \<open>
  The global state.  \<open>elements\<close> is the registry \<^verbatim>\<open>viewManager::elements\<close>: it owns every
  element through a \<^verbatim>\<open>unique_ptr\<close>, so erasing an entry destroys the element and the
  registry is at the same time the store of live elements.  \<open>indexedElements\<close> is the
  string index.  \<open>next_handle\<close> is the allocator: the address given to the next element
  created.  \<open>eventTypeMap\<close> is the function-local static of \<^verbatim>\<open>getEventVector\<close>: \<open>None\<close>
  before its first call, afterwards the element whose listener vectors it has bound.
\<close>

record dom =
  elements :: "handle \<rightharpoonup> Element"
  indexedElements :: "string \<rightharpoonup> handle"
  next_handle :: handle
  eventTypeMap :: "handle option"

text \<open>
  Outcome of an operation on a state: it completes, it leaves by an exception (with the
  state as mutated up to the \<^verbatim>\<open>throw\<close>), or it runs into undefined behaviour.
\<close>

datatype 's outcome = Done 's | Raised exn 's | Undefined

definition live :: "dom \<Rightarrow> handle \<Rightarrow> bool" where
  "live s h = (elements s h \<noteq> None)"

definition live_opt :: "dom \<Rightarrow> handle option \<Rightarrow> bool" where
  "live_opt s p = (case p of None \<Rightarrow> True | Some h \<Rightarrow> live s h)"

text \<open>Reading a pointer field of a live element, and writing a field of a live element.\<close>

definition ptr :: "dom \<Rightarrow> handle \<Rightarrow> (Element \<Rightarrow> handle option) \<Rightarrow> handle option" where
  "ptr s h f = (case elements s h of None \<Rightarrow> None | Some e \<Rightarrow> f e)"

definition upd :: "dom \<Rightarrow> handle \<Rightarrow> (Element \<Rightarrow> Element) \<Rightarrow> dom" where
  "upd s h f = (case elements s h of None \<Rightarrow> s
                | Some e \<Rightarrow> s\<lparr>elements := (elements s)(h \<mapsto> f e)\<rparr>)"

subsection \<open>Construction\<close>

text \<open>
  Modelled from the spec: \<^verbatim>\<open>createElement<T>\<close> and the \<^verbatim>\<open>Element\<close> constructor are defined in
  the header.  A new element has no parent, no children, no siblings, no attributes, an
  empty payload and no listeners, and is entered into the registry under its handle.
\<close>

definition new_Element :: "elementClass \<Rightarrow> Element" where
  "new_Element c =
     \<lparr> eclass = c, m_parent = None, m_firstChild = None, m_lastChild = None,
       m_nextSibling = None, m_previousSibling = None, m_childCount = 0,
       attr_indexBy = None, attr_textColor = None, data_string = [],
       listeners = (\<lambda>t. []) \<rparr>"

definition createElement :: "dom \<Rightarrow> elementClass \<Rightarrow> handle \<times> dom" where
  "createElement s c =
     (let h = next_handle s
      in (h, s\<lparr>elements := (elements s)(h \<mapsto> new_Element c), next_handle := Suc h\<rparr>))"

subsection \<open>Structural mutation\<close>

text \<open>
  Each operation first names the elements its body dereferences: a dead handle among
  them is a dangling pointer.  The body is then the source's sequence of assignments,
  one state per statement, so that aliased arguments behave as in the source.  The
  reference an operation returns is one of its arguments and is not modelled.
\<close>

definition appendChild :: "dom \<Rightarrow> handle \<Rightarrow> handle \<Rightarrow> dom outcome" where
  "appendChild s this newChild =
     (if live s this \<and> live s newChild \<and> live_opt s (ptr s this m_lastChild)
      then
        let s1 = upd s newChild (\<lambda>e. e\<lparr>m_parent := Some this\<rparr>);
            s2 = upd s1 newChild (\<lambda>e. e\<lparr>m_previousSibling := ptr s1 this m_lastChild\<rparr>);
            s3 = (if ptr s2 this m_firstChild = None
                  then upd s2 this (\<lambda>e. e\<lparr>m_firstChild := Some newChild\<rparr>) else s2);
            s4 = (case ptr s3 this m_lastChild of
                    Some l \<Rightarrow> upd s3 l (\<lambda>e. e\<lparr>m_nextSibling := Some newChild\<rparr>)
                  | None \<Rightarrow> s3);
            s5 = upd s4 this (\<lambda>e. e\<lparr>m_lastChild := Some newChild\<rparr>);
            s6 = upd s5 this (\<lambda>e. e\<lparr>m_childCount := m_childCount e + 1\<rparr>)
        in Done s6
      else Undefined)"

definition insertBefore :: "dom \<Rightarrow> handle \<Rightarrow> handle \<Rightarrow> handle \<Rightarrow> dom outcome" where
  "insertBefore s this newChild existingElement =
     (if live s this \<and> live s newChild \<and> live s existingElement
         \<and> live_opt s (ptr s existingElement m_previousSibling)
      then
        let child = newChild;
            s1 = upd s child (\<lambda>e. e\<lparr>m_parent := ptr s existingElement m_parent\<rparr>);
            s2 = upd s1 child (\<lambda>e. e\<lparr>m_nextSibling := Some existingElement\<rparr>);
            s3 = upd s2 child
                   (\<lambda>e. e\<lparr>m_previousSibling := ptr s2 existingElement m_previousSibling\<rparr>);
            s4 = upd s3 existingElement (\<lambda>e. e\<lparr>m_previousSibling := Some child\<rparr>);
            s5 = (case ptr s4 child m_previousSibling of
                    Some p \<Rightarrow> upd s4 p (\<lambda>e. e\<lparr>m_nextSibling := Some child\<rparr>)
                  | None \<Rightarrow> s4);
            s6 = (case ptr s5 child m_nextSibling of
                    Some n \<Rightarrow> upd s5 n (\<lambda>e. e\<lparr>m_previousSibling := Some child\<rparr>)
                  | None \<Rightarrow> s5);
            s7 = (if Some existingElement = ptr s6 this m_firstChild
                  then upd s6 this (\<lambda>e. e\<lparr>m_firstChild := Some child\<rparr>) else s6);
            s8 = upd s7 this (\<lambda>e. e\<lparr>m_childCount := m_childCount e + 1\<rparr>)
        in Done s8
      else Undefined)"

definition insertAfter :: "dom \<Rightarrow> handle \<Rightarrow> handle \<Rightarrow> handle \<Rightarrow> dom outcome" where
  "insertAfter s this newChild existingElement =
     (if live s this \<and> live s newChild \<and> live s existingElement
         \<and> live_opt s (ptr s existingElement m_nextSibling)
      then
        let s1 = upd s newChild (\<lambda>e. e\<lparr>m_parent := ptr s existingElement m_parent\<rparr>);
            s2 = upd s1 newChild
                   (\<lambda>e. e\<lparr>m_nextSibling := ptr s1 existingElement m_previousSibling\<rparr>);
            s3 = upd s2 newChild (\<lambda>e. e\<lparr>m_previousSibling := Some existingElement\<rparr>);
            s4 = (case ptr s3 existingElement m_nextSibling of
                    Some n \<Rightarrow> upd s3 n (\<lambda>e. e\<lparr>m_previousSibling := Some newChild\<rparr>)
                  | None \<Rightarrow> s3);
            s5 = upd s4 existingElement (\<lambda>e. e\<lparr>m_nextSibling := Some newChild\<rparr>);
            s6 = (if Some existingElement = ptr s5 this m_lastChild
                  then upd s5 this (\<lambda>e. e\<lparr>m_lastChild := Some newChild\<rparr>) else s5);
            s7 = upd s6 this (\<lambda>e. e\<lparr>m_childCount := m_childCount e + 1\<rparr>)
        in Done s7
      else Undefined)"

text \<open>
  Modelled from the spec: the typed getter \<^verbatim>\<open>getAttribute<T>\<close> is defined in the header.  It
  returns the stored value of the attribute, or fails with a "not set" error when the
  element does not store it; here for the attribute type \<^verbatim>\<open>indexBy\<close>.
\<close>

definition getAttribute_indexBy :: "Element \<Rightarrow> string result" where
  "getAttribute_indexBy e =
     (case attr_indexBy e of None \<Rightarrow> Threw attribute_not_set | Some v \<Rightarrow> Returned v)"

text \<open>
  \<^verbatim>\<open>try { indexedElements.erase(e.getAttribute<indexBy>().value); } catch (...) {}\<close>:
  when the getter throws, the handler swallows the exception and nothing is erased.
  Then the registry entry is erased, which destroys the element.
\<close>

definition erase_index_of :: "dom \<Rightarrow> handle \<Rightarrow> dom" where
  "erase_index_of s h =
     (case elements s h of
        None \<Rightarrow> s
      | Some e \<Rightarrow> (case getAttribute_indexBy e of
                     Returned k \<Rightarrow> s\<lparr>indexedElements := (indexedElements s)(k := None)\<rparr>
                   | Threw x \<Rightarrow> s
                   | Undef \<Rightarrow> s))"

definition erase_element :: "dom \<Rightarrow> handle \<Rightarrow> dom" where
  "erase_element s h = s\<lparr>elements := (elements s)(h := None)\<rparr>"

definition replaceChild :: "dom \<Rightarrow> handle \<Rightarrow> handle \<Rightarrow> handle \<Rightarrow> dom outcome" where
  "replaceChild s this newChild oldChild =
     (if live s this \<and> live s newChild \<and> live s oldChild
         \<and> ptr s oldChild m_parent \<noteq> None \<and> live_opt s (ptr s oldChild m_parent)
         \<and> live_opt s (ptr s oldChild m_previousSibling)
         \<and> live_opt s (ptr s oldChild m_nextSibling)
      then
        let s1 = (case ptr s oldChild m_parent of
                    Some p \<Rightarrow> (if ptr s p m_firstChild = Some oldChild
                               then upd s p (\<lambda>e. e\<lparr>m_firstChild := Some newChild\<rparr>) else s)
                  | None \<Rightarrow> s);
            s2 = (case ptr s1 oldChild m_parent of
                    Some p \<Rightarrow> (if ptr s1 p m_lastChild = Some oldChild
                               then upd s1 p (\<lambda>e. e\<lparr>m_lastChild := Some newChild\<rparr>) else s1)
                  | None \<Rightarrow> s1);
            s3 = (case ptr s2 oldChild m_previousSibling of
                    Some p \<Rightarrow> upd s2 p (\<lambda>e. e\<lparr>m_nextSibling := Some newChild\<rparr>)
                  | None \<Rightarrow> s2);
            s4 = (case ptr s3 oldChild m_nextSibling of
                    Some n \<Rightarrow> upd s3 n (\<lambda>e. e\<lparr>m_previousSibling := Some newChild\<rparr>)
                  | None \<Rightarrow> s3);
            s5 = upd s4 newChild (\<lambda>e. e\<lparr>m_parent := ptr s4 oldChild m_parent\<rparr>);
            s6 = erase_index_of s5 oldChild;
            s7 = erase_element s6 oldChild
        in Done s7
      else Undefined)"

text \<open>
  \<^verbatim>\<open>removeChild\<close> calls itself for every child of \<open>oldChild\<close>, as
  \<^verbatim>\<open>pItem->removeChild(*pItem)\<close>: the receiver and the argument are the same element.
  The recursion need not end (an element that is its own parent and first child calls
  itself for ever), so the model takes fuel; \<open>None\<close> is "no result within the fuel".
  After a call that completed, \<open>pItem\<close> has been destroyed and the loop reads its
  \<^verbatim>\<open>m_nextSibling\<close>; the final \<^verbatim>\<open>m_childCount--\<close> reads \<open>this\<close> after \<open>oldChild\<close> was destroyed.
\<close>

definition removeChild_unlink :: "dom \<Rightarrow> handle \<Rightarrow> handle \<Rightarrow> dom outcome" where
  "removeChild_unlink s this oldChild =
     (if live s this \<and> live s oldChild
         \<and> live_opt s (ptr s oldChild m_previousSibling)
         \<and> live_opt s (ptr s oldChild m_nextSibling)
      then
        let s1 = (if ptr s this m_firstChild = Some oldChild
                  then upd s this (\<lambda>e. e\<lparr>m_firstChild := ptr s oldChild m_nextSibling\<rparr>) else s);
            s2 = (if ptr s1 this m_lastChild = Some oldChild
                  then upd s1 this (\<lambda>e. e\<lparr>m_lastChild := ptr s1 oldChild m_previousSibling\<rparr>)
                  else s1);
            s3 = (case ptr s2 oldChild m_previousSibling of
                    Some p \<Rightarrow> upd s2 p (\<lambda>e. e\<lparr>m_nextSibling := ptr s2 oldChild m_nextSibling\<rparr>)
                  | None \<Rightarrow> s2);
            s4 = (case ptr s3 oldChild m_nextSibling of
                    Some n \<Rightarrow> upd s3 n
                               (\<lambda>e. e\<lparr>m_previousSibling := ptr s3 oldChild m_previousSibling\<rparr>)
                  | None \<Rightarrow> s3);
            s5 = erase_index_of s4 oldChild;
            s6 = erase_element s5 oldChild
        in if live s6 this
           then Done (upd s6 this (\<lambda>e. e\<lparr>m_childCount := m_childCount e - 1\<rparr>))
           else Undefined
      else Undefined)"

fun removeChild :: "nat \<Rightarrow> dom \<Rightarrow> handle \<Rightarrow> handle \<Rightarrow> dom outcome option"
  and removeChild_loop :: "nat \<Rightarrow> dom \<Rightarrow> handle option \<Rightarrow> dom outcome option"
where
  "removeChild 0 s this oldChild = None"
| "removeChild (Suc fuel) s this oldChild =
     (if live s this \<and> live s oldChild then
        (if ptr s oldChild m_parent \<noteq> Some this
         then Some (Raised (invalid_argument ''Referenced element is not a child.'') s)
         else case removeChild_loop fuel s (ptr s oldChild m_firstChild) of
                None \<Rightarrow> None
              | Some (Done s') \<Rightarrow> Some (removeChild_unlink s' this oldChild)
              | Some (Raised e s') \<Rightarrow> Some (Raised e s')
              | Some Undefined \<Rightarrow> Some Undefined)
      else Some Undefined)"
| "removeChild_loop fuel s None = Some (Done s)"
| "removeChild_loop 0 s (Some pItem) = None"
| "removeChild_loop (Suc fuel) s (Some pItem) =
     (case removeChild fuel s pItem pItem of
        None \<Rightarrow> None
      | Some (Done s') \<Rightarrow>
          (if live s' pItem then removeChild_loop fuel s' (ptr s' pItem m_nextSibling)
           else Some Undefined)
      | Some (Raised e s') \<Rightarrow> Some (Raised e s')
      | Some Undefined \<Rightarrow> Some Undefined)"

subsection \<open>The identity attribute and the string index\<close>

text \<open>
  \<^verbatim>\<open>updateIndexBy\<close>.  The index is an \<^verbatim>\<open>unordered_map\<close> with unique keys: \<^verbatim>\<open>insert\<close> does
  nothing when the key is present.  In case b the node extracted under the old key is
  re-keyed and inserted; when the old key is absent the node handle is empty and
  assigning to its \<^verbatim>\<open>key()\<close> is undefined; when the new key is present the insertion
  fails and the extracted node is dropped.
\<close>

definition index_insert :: "(string \<rightharpoonup> handle) \<Rightarrow> string \<Rightarrow> handle \<Rightarrow> (string \<rightharpoonup> handle)" where
  "index_insert m k h = (case m k of None \<Rightarrow> m(k \<mapsto> h) | Some _ \<Rightarrow> m)"

definition updateIndexBy :: "dom \<Rightarrow> handle \<Rightarrow> string \<Rightarrow> dom outcome" where
  "updateIndexBy s this newKey =
     (case elements s this of
        None \<Rightarrow> Undefined
      | Some e \<Rightarrow>
          let oldKey = (case attr_indexBy e of Some k \<Rightarrow> k | None \<Rightarrow> [])
          in if oldKey \<noteq> [] \<and> oldKey = newKey then Done s
             else if oldKey \<noteq> [] \<and> newKey \<noteq> [] then
               (case indexedElements s oldKey of
                  None \<Rightarrow> Undefined
                | Some r \<Rightarrow>
                    Done (s\<lparr>indexedElements :=
                              index_insert ((indexedElements s)(oldKey := None)) newKey r\<rparr>))
             else if oldKey \<noteq> [] \<and> newKey = [] then
               Done (s\<lparr>indexedElements := (indexedElements s)(oldKey := None)\<rparr>)
             else if newKey \<noteq> [] then
               Done (s\<lparr>indexedElements := index_insert (indexedElements s) newKey this\<rparr>)
             else Done s)"

text \<open>
  \<^verbatim>\<open>setAttribute\<close> with a value of type \<^verbatim>\<open>indexBy\<close> (filter case \<^verbatim>\<open>dt_indexBy\<close>): the index is
  updated, then the value is stored in the attribute map.
\<close>

definition setAttribute_indexBy :: "dom \<Rightarrow> handle \<Rightarrow> string \<Rightarrow> dom outcome" where
  "setAttribute_indexBy s this v =
     (case updateIndexBy s this v of
        Done s1 \<Rightarrow> Done (upd s1 this (\<lambda>e. e\<lparr>attr_indexBy := Some v\<rparr>))
      | Raised x s1 \<Rightarrow> Raised x s1
      | Undefined \<Rightarrow> Undefined)"

definition hasElement :: "dom \<Rightarrow> string \<Rightarrow> bool" where
  "hasElement s key = (indexedElements s key \<noteq> None)"

text \<open>Setting a sequence of ids, one \<^verbatim>\<open>setAttribute(indexBy{v})\<close> after the other.\<close>

fun setAttribute_indexBy_seq :: "dom \<Rightarrow> (handle \<times> string) list \<Rightarrow> dom outcome" where
  "setAttribute_indexBy_seq s [] = Done s"
| "setAttribute_indexBy_seq s ((h, v) # rest) =
     (case setAttribute_indexBy s h v of
        Done s1 \<Rightarrow> setAttribute_indexBy_seq s1 rest
      | Raised x s1 \<Rightarrow> Raised x s1
      | Undefined \<Rightarrow> Undefined)"

subsection \<open>Queries\<close>

text \<open>
  \<^verbatim>\<open>std::regex\<close> is a parameter: \<open>rx p\<close> is the matcher compiled from the pattern \<open>p\<close> with
  \<^verbatim>\<open>ECMAScript | icase\<close>, or \<open>None\<close> when the constructor throws.  The iteration order of the
  registry is a parameter as well: \<open>order\<close> lists the handles as the range-for visits
  them.  Pattern and id are passed as C strings, which end at the first NUL.
\<close>

definition c_str :: "string \<Rightarrow> string" where
  "c_str s = takeWhile (\<lambda>c. c \<noteq> CHR 0x00) s"

fun query_loop :: "dom \<Rightarrow> (string \<Rightarrow> bool) \<Rightarrow> handle list \<Rightarrow> handle list \<Rightarrow> handle list result" where
  "query_loop s m [] results = Returned results"
| "query_loop s m (n # ns) results =
     (case elements s n of
        None \<Rightarrow> Undef
      | Some e \<Rightarrow>
          (case getAttribute_indexBy e of
             Returned v \<Rightarrow> query_loop s m ns (if m (c_str v) then results @ [n] else results)
           | Threw x \<Rightarrow> Threw x
           | Undef \<Rightarrow> Undef))"

definition query :: "(string \<Rightarrow> (string \<Rightarrow> bool) option) \<Rightarrow> dom \<Rightarrow> handle list \<Rightarrow> string
                     \<Rightarrow> handle list result" where
  "query rx s order queryString =
     (if queryString = ''*'' then
        (if list_all (live s) order then Returned order else Undef)
      else case rx (c_str queryString) of
             None \<Rightarrow> Threw regex_error
           | Some m \<Rightarrow> query_loop s m order [])"

subsection \<open>Event listeners\<close>

text \<open>
  \<^verbatim>\<open>getEventVector\<close> holds a function-local static map from event type to a reference to
  a listener vector; it is built on the first call, from the members of the element
  of that call.  The result is the element and event type whose vector the reference
  denotes; \<open>None\<close> is the dereference of \<^verbatim>\<open>end()\<close> for an event type that is not a key.
\<close>

definition getEventVector :: "dom \<Rightarrow> handle \<Rightarrow> eventType \<Rightarrow> dom \<times> (handle \<times> eventType) option" where
  "getEventVector s this evtType =
     (let owner = (case eventTypeMap s of None \<Rightarrow> this | Some ow \<Rightarrow> ow);
          s1 = s\<lparr>eventTypeMap := Some owner\<rparr>
      in (s1, if evtType = paint then None else Some (owner, evtType)))"

text \<open>
  \<^verbatim>\<open>getAddress\<close>: \<^verbatim>\<open>target<fnType *>()\<close> is null unless the handler holds a plain function
  pointer, and the result is dereferenced.
\<close>

fun getAddress :: "eventHandler \<Rightarrow> nat option" where
  "getAddress (FnPtr a) = Some a"
| "getAddress (Callable _) = None"
| "getAddress EmptyFn = None"

definition addListener :: "dom \<Rightarrow> handle \<Rightarrow> eventType \<Rightarrow> eventHandler \<Rightarrow> dom outcome" where
  "addListener s this evtType evtHandler =
     (if live s this then
        (case getEventVector s this evtType of
           (s1, None) \<Rightarrow> Undefined
         | (s1, Some (ow, t)) \<Rightarrow>
             (if live s1 ow
              then Done (upd s1 ow
                          (\<lambda>e. e\<lparr>listeners := (listeners e)(t := listeners e t @ [evtHandler])\<rparr>))
              else Undefined))
      else Undefined)"

text \<open>The erase loop of \<^verbatim>\<open>removeListener\<close>, on the vector it is given.\<close>

fun removeListener_loop :: "eventHandler list \<Rightarrow> eventHandler \<Rightarrow> eventHandler list option" where
  "removeListener_loop [] evtHandler = Some []"
| "removeListener_loop (x # xs) evtHandler =
     (case (getAddress x, getAddress evtHandler) of
        (Some a, Some b) \<Rightarrow>
          (if a = b then removeListener_loop xs evtHandler
           else map_option ((#) x) (removeListener_loop xs evtHandler))
      | _ \<Rightarrow> None)"

text \<open>
  \<^verbatim>\<open>auto eventList = getEventVector(evtType);\<close> deduces \<^verbatim>\<open>vector<eventHandler>\<close>, not a
  reference: \<open>eventList\<close> is a copy of the element's vector, the loop erases from the
  copy, and the copy is dropped at the end of the function.
\<close>

definition removeListener :: "dom \<Rightarrow> handle \<Rightarrow> eventType \<Rightarrow> eventHandler \<Rightarrow> dom outcome" where
  "removeListener s this evtType evtHandler =
     (if live s this then
        (case getEventVector s this evtType of
           (s1, None) \<Rightarrow> Undefined
         | (s1, Some (ow, t)) \<Rightarrow>
             (case elements s1 ow of
                None \<Rightarrow> Undefined
              | Some e \<Rightarrow>
                  (let eventList = listeners e t
                   in case removeListener_loop eventList evtHandler of
                        None \<Rightarrow> Undefined
                      | Some eventList' \<Rightarrow> Done s1)))
      else Undefined)"

section \<open>Markup parser\<close>

subsection \<open>Factory tables\<close>

text \<open>
  \<^verbatim>\<open>objectFactoryMap\<close> without the entries guarded by \<^verbatim>\<open>INCLUDE_UX\<close>: tag name to the class
  that the stored lambda creates.
\<close>

definition objectFactoryMap :: "(string \<times> elementClass) list" where
  "objectFactoryMap =
     [(''br'', BR), (''h1'', H1), (''h2'', H2), (''h3'', H3), (''paragraph'', PARAGRAPH),
      (''p'', PARAGRAPH), (''div'', DIV), (''span'', SPAN), (''ul'', UL), (''ol'', OL),
      (''li'', LI), (''image'', IMAGE)]"

text \<open>
  The setter stored with an attribute name.  \<open>set_indexBy\<close> is
  \<^verbatim>\<open>e.setAttribute(indexBy{s})\<close>.  Every other setter constructs an attribute class that is
  declared in the header; \<open>set_other\<close> carries the source text of what it sets, and the
  effect of these setters is a parameter of the build phase.
\<close>

datatype attributeLambda = set_indexBy | set_other string

text \<open>
  \<^verbatim>\<open>attributeFactory\<close> in the order of its initialiser list, with the flag "a value
  follows".  The key \<open>left\<close> occurs twice; the map keeps the first.
\<close>

definition attributeFactory :: "(string \<times> bool \<times> attributeLambda) list" where
  "attributeFactory = [
    (''id'', (True, set_indexBy)),
    (''indexby'', (True, set_indexBy)),
    (''block'', (False, set_other ''display::block'')),
    (''inline'', (False, set_other ''display::in_line'')),
    (''hidden'', (False, set_other ''display::none'')),
    (''display'', (True, set_other ''display{s}'')),
    (''absolute'', (False, set_other ''position::absolute'')),
    (''relative'', (False, set_other ''position::relative'')),
    (''position'', (True, set_other ''position{s}'')),
    (''objecttop'', (True, set_other ''objectTop{doubleNF(s)}'')),
    (''top'', (True, set_other ''objectTop{doubleNF(s)}'')),
    (''objectleft'', (True, set_other ''objectLeft{doubleNF(s)}'')),
    (''left'', (True, set_other ''objectLeft{doubleNF(s)}'')),
    (''objectheight'', (True, set_other ''objectHeight{doubleNF(s)}'')),
    (''height'', (True, set_other ''objectHeight{doubleNF(s)}'')),
    (''objectwidth'', (True, set_other ''objectWidth{doubleNF(s)}'')),
    (''width'', (True, set_other ''objectWidth{doubleNF(s)}'')),
    (''coordinates'', (True, set_other ''coordinates (parseQuadCoordinates)'')),
    (''scrolltop'', (True, set_other ''scrollTop{doubleNF(s)}'')),
    (''scrollleft'', (True, set_other ''scrollLeft{doubleNF(s)}'')),
    (''background'', (True, set_other ''background{colorNF(s)}'')),
    (''opacity'', (True, set_other ''opacity{s}'')),
    (''textface'', (True, set_other ''textFace{s}'')),
    (''textsize'', (True, set_other ''textSize{doubleNF(s)}'')),
    (''textweight'', (True, set_other ''textWeight{s}'')),
    (''weight'', (True, set_other ''textWeight{s}'')),
    (''textcolor'', (True, set_other ''textColor{colorNF(s)}'')),
    (''color'', (True, set_other ''textColor{colorNF(s)}'')),
    (''textalignment'', (True, set_other ''textAlignment{s}'')),
    (''left'', (False, set_other ''textAlignment::left'')),
    (''center'', (False, set_other ''textAlignment::center'')),
    (''right'', (False, set_other ''textAlignment::right'')),
    (''justified'', (False, set_other ''textAlignment::justified'')),
    (''textindent'', (True, set_other ''textIndent{doubleNF(s)}'')),
    (''indent'', (True, set_other ''textIndent{doubleNF(s)}'')),
    (''tabsize'', (True, set_other ''tabSize{doubleNF(s)}'')),
    (''tab'', (True, set_other ''tabSize{doubleNF(s)}'')),
    (''lineheight'', (True, set_other ''lineHeight{s}'')),
    (''normal'', (False, set_other ''lineHeight::normal'')),
    (''numeric'', (False, set_other ''lineHeight::numeric'')),
    (''margintop'', (True, set_other ''marginTop{doubleNF(s)}'')),
    (''marginleft'', (True, set_other ''marginLeft{doubleNF(s)}'')),
    (''marginbottom'', (True, set_other ''marginBottom{doubleNF(s)}'')),
    (''marginright'', (True, set_other ''marginRight{doubleNF(s)}'')),
    (''margin'', (True, set_other ''margin (parseQuadCoordinates)'')),
    (''paddingtop'', (True, set_other ''paddingTop{doubleNF(s)}'')),
    (''paddingleft'', (True, set_other ''paddingLeft{doubleNF(s)}'')),
    (''paddingbottom'', (True, set_other ''paddingBottom{doubleNF(s)}'')),
    (''paddingright'', (True, set_other ''paddingRight{doubleNF(s)}'')),
    (''padding'', (True, set_other ''padding (parseQuadCoordinates)'')),
    (''borderstyle'', (True, set_other ''borderStyle{s}'')),
    (''borderwidth'', (True, set_other ''borderWidth{doubleNF(s)}'')),
    (''bordercolor'', (True, set_other ''borderColor{colorNF(s)}'')),
    (''borderradius'', (True, set_other ''borderRadius{s}'')),
    (''focusindex'', (True, set_other ''focusIndex{s}'')),
    (''focus'', (True, set_other ''focusIndex{s}'')),
    (''zindex'', (True, set_other ''zIndex{s}'')),
    (''liststyletype'', (True, set_other ''listStyleType{s}''))]"

subsection \<open>Parser context\<close>

datatype itemType =
  element | elementTerminal | attribute | attributeValue | attributeSimple | color | textData

datatype parserOperator =
  PString string | PFactory elementClass | PAttribute attributeLambda | PColor colorNF

type_synonym parsedItem = "itemType \<times> bool \<times> parserOperator"

record parserContext =
  parsedData :: "parsedItem list"
  elementStack :: "handle list"
  bSignal :: bool
  bToken :: bool
  bSkip :: bool
  bTerminal :: bool
  bAttributeList :: bool
  bAttributeListValue :: bool
  bQuery :: bool
  sCapture :: string
  sText :: string

text \<open>The function-local static \<open>pc\<close> before the first call: zero-initialised.\<close>

definition pc_init :: parserContext where
  "pc_init =
     \<lparr> parsedData = [], elementStack = [], bSignal = False, bToken = False, bSkip = False,
       bTerminal = False, bAttributeList = False, bAttributeListValue = False,
       bQuery = False, sCapture = [], sText = [] \<rparr>"

definition emplace_back :: "parserContext \<Rightarrow> itemType \<Rightarrow> parserOperator \<Rightarrow> parserContext" where
  "emplace_back pc t v = pc\<lparr>parsedData := parsedData pc @ [(t, False, v)]\<rparr>"

subsection \<open>Phase 1: tokenise\<close>

text \<open>The \<^verbatim>\<open>switch (*p)\<close> at the head of the loop body.\<close>

definition tokenize_switch :: "parserContext \<Rightarrow> char \<Rightarrow> parserContext" where
  "tokenize_switch pc c =
     (if c = CHR ''<'' then
        (let pc1 = (if sText pc \<noteq> []
                    then (emplace_back pc textData (PString (sText pc)))\<lparr>sText := []\<rparr>
                    else pc)
         in pc1\<lparr>bSignal := True, bSkip := True\<rparr>)
      else if c = CHR '' '' then
        (if bSignal pc \<and> (\<not> bToken pc \<or> bAttributeList pc)
         then pc\<lparr>bQuery := True, bSkip := True\<rparr> else pc)
      else if c = CHR ''='' then
        (if bAttributeList pc then pc\<lparr>bQuery := True, bSkip := True\<rparr> else pc)
      else if c = CHR ''>'' then
        (if bSignal pc
         then pc\<lparr>bSignal := False, bToken := False, bSkip := True, bQuery := True\<rparr> else pc)
      else if c = CHR ''/'' then
        (if bSignal pc then pc\<lparr>bTerminal := True, bSkip := True\<rparr> else pc)
      else pc)"

text \<open>The block \<^verbatim>\<open>if (pc.bQuery) { ... }\<close>: classification of the captured word.\<close>

definition tokenize_query :: "parserContext \<Rightarrow> parserContext" where
  "tokenize_query pc =
     (if \<not> bQuery pc then pc
      else
        let sKey = lowercase (sCapture pc)
        in if bToken pc then
             (let pc1 = (case map_of attributeFactory sKey of
                           None \<Rightarrow> pc
                         | Some (twoTokens, f) \<Rightarrow>
                             (if twoTokens
                              then (emplace_back pc attribute (PAttribute f))
                                     \<lparr>bAttributeListValue := True\<rparr>
                              else (emplace_back pc attributeSimple (PAttribute f))
                                     \<lparr>bAttributeListValue := False\<rparr>))
              in pc1\<lparr>sCapture := [], bQuery := False\<rparr>)
           else if bAttributeList pc \<and> bAttributeListValue pc then
             (let pc1 = (emplace_back pc attributeValue (PString (sCapture pc)))
                          \<lparr>sCapture := [], bQuery := False\<rparr>
              in if \<not> bSignal pc1
                 then pc1\<lparr>bAttributeList := False, bAttributeListValue := False\<rparr> else pc1)
           else
             (case map_of objectFactoryMap sKey of
                Some f \<Rightarrow>
                  (let pc1 = (if bTerminal pc
                              then (emplace_back pc elementTerminal (PString []))
                                     \<lparr>bToken := False, bTerminal := False,
                                      bAttributeList := False, bAttributeListValue := False\<rparr>
                              else (emplace_back pc element (PFactory f))
                                     \<lparr>bToken := True, bAttributeList := True,
                                      bAttributeListValue := False\<rparr>)
                   in pc1\<lparr>sCapture := [], bQuery := False\<rparr>)
              | None \<Rightarrow>
                  (let pc1 = (case colorIndex sKey of
                                Some col \<Rightarrow> emplace_back pc color (PColor (colorNF_of_entry col))
                              | None \<Rightarrow> pc)
                   in pc1\<lparr>bQuery := False\<rparr>)))"

text \<open>The capture of the character, and the reset of \<open>bSkip\<close>.\<close>

definition tokenize_capture :: "parserContext \<Rightarrow> char \<Rightarrow> parserContext" where
  "tokenize_capture pc c =
     (let pc1 = (if \<not> bSkip pc
                 then (if bSignal pc then pc\<lparr>sCapture := sCapture pc @ [c]\<rparr>
                       else pc\<lparr>sText := sText pc @ [c]\<rparr>)
                 else pc)
      in pc1\<lparr>bSkip := False\<rparr>)"

definition tokenize_char :: "parserContext \<Rightarrow> char \<Rightarrow> parserContext" where
  "tokenize_char pc c = tokenize_capture (tokenize_query (tokenize_switch pc c)) c"

text \<open>The loop \<^verbatim>\<open>while (*p)\<close> over the C string, and the final flush of the text run.\<close>

definition tokenize :: "parserContext \<Rightarrow> string \<Rightarrow> parserContext" where
  "tokenize pc markup =
     (let pc1 = foldl tokenize_char pc (c_str markup)
      in if sText pc1 \<noteq> []
         then (emplace_back pc1 textData (PString (sText pc1)))\<lparr>sText := []\<rparr>
         else pc1)"

subsection \<open>Phase 2: build\<close>

text \<open>
  \<open>other\<close> is the effect of the setters whose attribute classes are declared in the
  header: \<open>other label e v s\<close> sets the attribute named by \<open>label\<close> on the element \<open>e\<close>
  from the value string \<open>v\<close>.
\<close>

type_synonym otherSetters = "string \<Rightarrow> handle \<Rightarrow> string \<Rightarrow> dom \<Rightarrow> dom outcome"

fun apply_attribute :: "otherSetters \<Rightarrow> dom \<Rightarrow> handle \<Rightarrow> attributeLambda \<Rightarrow> string \<Rightarrow> dom outcome" where
  "apply_attribute other s e set_indexBy v = setAttribute_indexBy s e v"
| "apply_attribute other s e (set_other label) v = other label e v s"

text \<open>
  Modelled from the spec: the member template \<^verbatim>\<open>appendChild<T>(attrs...)\<close> is defined in the
  header.  It creates an element of class \<open>T\<close> with the given attributes and appends it as
  the last child; here \<open>T\<close> is \<^verbatim>\<open>textNode\<close> and the attribute a \<^verbatim>\<open>textColor\<close>.
\<close>

definition appendChild_textNode :: "dom \<Rightarrow> handle \<Rightarrow> colorNF \<Rightarrow> (handle \<times> dom) option" where
  "appendChild_textNode s this col =
     (let (h, s1) = createElement s textNode;
          s2 = upd s1 h (\<lambda>e. e\<lparr>attr_textColor := Some col\<rparr>)
      in case appendChild s2 this h of
           Done s3 \<Rightarrow> Some (h, s3)
         | _ \<Rightarrow> None)"

text \<open>
  The walk over \<open>parsedData\<close>.  \<open>done\<close> holds the items already passed, with their
  processed flags as updated; the state of an outcome is the document, the element
  stack and the whole item list.  \<^verbatim>\<open>back()\<close> and \<^verbatim>\<open>pop_back()\<close> on an empty stack are undefined;
  \<^verbatim>\<open>std::get\<close> on a payload of another alternative throws.
  The \<^verbatim>\<open>switch\<close> has no case for \<open>attributeValue\<close> and \<open>attributeSimple\<close>: such an item is
  passed over with its flag unchanged.
\<close>

type_synonym buildState = "dom \<times> handle list \<times> parsedItem list"

fun build :: "otherSetters \<Rightarrow> dom \<Rightarrow> handle list \<Rightarrow> parsedItem list \<Rightarrow> parsedItem list
              \<Rightarrow> buildState outcome" where
  "build other s stack done [] = Done (s, stack, done)"
| "build other s stack done (item # rest) =
     (case item of (ty, processed, payload) \<Rightarrow>
        if processed then build other s stack (done @ [item]) rest
        else (case ty of
          element \<Rightarrow>
            (case payload of
               PFactory cls \<Rightarrow>
                 (let (e, s1) = createElement s cls
                  in if stack = [] then Undefined
                     else (case appendChild s1 (last stack) e of
                             Done s2 \<Rightarrow>
                               build other s2 (stack @ [e]) (done @ [(ty, True, payload)]) rest
                           | Raised x s2 \<Rightarrow> Raised x (s2, stack, done @ item # rest)
                           | Undefined \<Rightarrow> Undefined))
             | _ \<Rightarrow> Raised bad_variant_access (s, stack, done @ item # rest))
        | elementTerminal \<Rightarrow>
            (if stack = [] then Undefined
             else build other s (butlast stack) (done @ [(ty, True, payload)]) rest)
        | attribute \<Rightarrow>
            (case rest of
               (attributeValue, vprocessed, vpayload) # rest' \<Rightarrow>
                 (case payload of
                    PAttribute f \<Rightarrow>
                      (if stack = [] then Undefined
                       else (case vpayload of
                          PString v \<Rightarrow>
                            (case apply_attribute other s (last stack) f v of
                               Done s1 \<Rightarrow>
                                 build other s1 stack
                                   (done @ [(ty, True, payload), (attributeValue, True, vpayload)])
                                   rest'
                             | Raised x s1 \<Rightarrow>
                                 Raised x (s1, stack, done @ (ty, True, payload) # rest)
                             | Undefined \<Rightarrow> Undefined)
                        | _ \<Rightarrow> Raised bad_variant_access
                                 (s, stack, done @ (ty, True, payload) # rest)))
                  | _ \<Rightarrow> Raised bad_variant_access (s, stack, done @ (ty, True, payload) # rest))
             | _ \<Rightarrow> build other s stack (done @ [(ty, True, payload)]) rest)
        | color \<Rightarrow>
            (case payload of
               PColor col \<Rightarrow>
                 (if stack = [] then Undefined
                  else (case appendChild_textNode s (last stack) col of
                          Some (e, s1) \<Rightarrow>
                            build other s1 (stack @ [e]) (done @ [(ty, True, payload)]) rest
                        | None \<Rightarrow> Undefined))
             | _ \<Rightarrow> Raised bad_variant_access (s, stack, done @ item # rest))
        | textData \<Rightarrow>
            (case payload of
               PString txt \<Rightarrow>
                 (if stack = [] \<or> \<not> live s (last stack) then Undefined
                  else build other
                         (upd s (last stack) (\<lambda>e. e\<lparr>data_string := data_string e @ [txt]\<rparr>))
                         stack (done @ [(ty, True, payload)]) rest)
             | _ \<Rightarrow> (if stack = [] \<or> \<not> live s (last stack) then Undefined
                     else Raised bad_variant_access (s, stack, done @ item # rest)))
        | attributeValue \<Rightarrow> build other s stack (done @ [item]) rest
        | attributeSimple \<Rightarrow> build other s stack (done @ [item]) rest))"

subsection \<open>The ingestion call\<close>

text \<open>
  \<^verbatim>\<open>ingestMarkup(node, markup)\<close> on the document \<open>s\<close> and the static context \<open>pc\<close>.  The target
  is pushed only when the stack of the context is empty.  The reference returned is the
  top of the stack after the build phase (\<open>ingestMarkup_ret\<close>).
\<close>

definition ingestMarkup :: "otherSetters \<Rightarrow> dom \<Rightarrow> parserContext \<Rightarrow> handle \<Rightarrow> string
                            \<Rightarrow> (dom \<times> parserContext) outcome" where
  "ingestMarkup other s pc node markup =
     (let pc0 = (if elementStack pc = [] then pc\<lparr>elementStack := [node]\<rparr> else pc);
          pc1 = tokenize pc0 markup
      in case build other s (elementStack pc1) [] (parsedData pc1) of
           Done (s', stack', items') \<Rightarrow>
             (if stack' = [] then Undefined
              else Done (s', pc1\<lparr>parsedData := items', elementStack := stack'\<rparr>))
         | Raised x (s', stack', items') \<Rightarrow>
             Raised x (s', pc1\<lparr>parsedData := items', elementStack := stack'\<rparr>)
         | Undefined \<Rightarrow> Undefined)"

definition ingestMarkup_ret :: "parserContext \<Rightarrow> handle option" where
  "ingestMarkup_ret pc = (case elementStack pc of [] \<Rightarrow> None | st \<Rightarrow> Some (last st))"

section \<open>Example documents\<close>

text \<open>A document that holds only a root element, as left by \<^verbatim>\<open>createElement\<close> on an empty registry.\<close>

definition fresh_root :: "elementClass \<Rightarrow> dom" where
  "fresh_root c =
     \<lparr> elements = [1 \<mapsto> new_Element c], indexedElements = Map.empty,
       next_handle = 2, eventTypeMap = None \<rparr>"

text \<open>
  A small tree: the root \<open>1\<close> has the children \<open>2\<close> (id \<open>c\<close>) and \<open>3\<close>; \<open>2\<close> has the child \<open>5\<close>
  (id \<open>g\<close>); \<open>4\<close> and \<open>6\<close> are new elements that are not attached.
\<close>

definition example_doc :: dom where
  "example_doc =
     \<lparr> elements =
         [1 \<mapsto> (new_Element DIV)\<lparr>m_firstChild := Some 2, m_lastChild := Some 3, m_childCount := 2\<rparr>,
          2 \<mapsto> (new_Element DIV)\<lparr>m_parent := Some 1, m_nextSibling := Some 3,
                                  m_firstChild := Some 5, m_lastChild := Some 5,
                                  m_childCount := 1, attr_indexBy := Some ''c''\<rparr>,
          3 \<mapsto> (new_Element SPAN)\<lparr>m_parent := Some 1, m_previousSibling := Some 2\<rparr>,
          4 \<mapsto> new_Element PARAGRAPH,
          5 \<mapsto> (new_Element PARAGRAPH)\<lparr>m_parent := Some 2, attr_indexBy := Some ''g''\<rparr>,
          6 \<mapsto> new_Element LI],
       indexedElements = [''c'' \<mapsto> 2, ''g'' \<mapsto> 5],
       next_handle = 7, eventTypeMap = None \<rparr>"

text \<open>Setters that store nothing, for running the parser on markup without such attributes.\<close>

definition inert_setters :: otherSetters where
  "inert_setters label e v s = Done s"

text \<open>The listener vector of an element, empty for a handle that is not live.\<close>

definition listeners_of :: "dom \<Rightarrow> handle \<Rightarrow> eventType \<Rightarrow> eventHandler list" where
  "listeners_of s h t = (case elements s h of None \<Rightarrow> [] | Some e \<Rightarrow> listeners e t)"

section \<open>Predicates used in the statements\<close>

subsection \<open>Closing tags within the opened elements\<close>

text \<open>
  \<open>closes_within n items\<close>: walking \<open>items\<close> as the build phase does, with \<open>n\<close> elements on
  the stack above its bottom element, every unprocessed \<open>elementTerminal\<close> item finds at
  least one element above the bottom.  \<open>element\<close> and \<open>color\<close> items push one element.
\<close>

fun closes_within :: "nat \<Rightarrow> parsedItem list \<Rightarrow> bool" where
  "closes_within n [] = True"
| "closes_within n (item # rest) =
     (case item of (ty, processed, payload) \<Rightarrow>
        if processed then closes_within n rest
        else (case ty of
          element \<Rightarrow> closes_within (Suc n) rest
        | elementTerminal \<Rightarrow> (case n of 0 \<Rightarrow> False | Suc m \<Rightarrow> closes_within m rest)
        | attribute \<Rightarrow>
            (case rest of
               (attributeValue, vprocessed, vpayload) # rest' \<Rightarrow> closes_within n rest'
             | _ \<Rightarrow> closes_within n rest)
        | color \<Rightarrow> closes_within (Suc n) rest
        | textData \<Rightarrow> closes_within n rest
        | attributeValue \<Rightarrow> closes_within n rest
        | attributeSimple \<Rightarrow> closes_within n rest))"

text \<open>The element stack that the build phase leaves, when it completes or throws.\<close>

fun outcome_stack :: "buildState outcome \<Rightarrow> handle list option" where
  "outcome_stack (Done (s, stack, items)) = Some stack"
| "outcome_stack (Raised x (s, stack, items)) = Some stack"
| "outcome_stack Undefined = None"

subsection \<open>Consistency of the string index\<close>

text \<open>
  The string index holds exactly one entry for every live element with a non-empty id,
  under that id and mapping to that element, and no other entry.
\<close>

definition index_exact :: "dom \<Rightarrow> bool" where
  "index_exact s =
     (\<forall>k h. indexedElements s k = Some h
            \<longleftrightarrow> k \<noteq> [] \<and> (\<exists>e. elements s h = Some e \<and> attr_indexBy e = Some k))"

text \<open>The id of an element as \<^verbatim>\<open>updateIndexBy\<close> reads it: empty when the attribute is not set.\<close>

definition id_of :: "Element \<Rightarrow> string" where
  "id_of e = (case attr_indexBy e of Some k \<Rightarrow> k | None \<Rightarrow> [])"

text \<open>Two new elements without ids.\<close>

definition two_fresh :: dom where
  "two_fresh =
     \<lparr> elements = [1 \<mapsto> new_Element DIV, 2 \<mapsto> new_Element DIV],
       indexedElements = Map.empty, next_handle = 3, eventTypeMap = None \<rparr>"

subsection \<open>Child lists\<close>

text \<open>
  Walking \<^verbatim>\<open>nextSibling\<close> from a pointer: \<open>walk_next s p cs\<close> holds when the walk from \<open>p\<close>
  visits exactly the live elements \<open>cs\<close>, in this order, and then reaches null.
  \<open>walk_prev\<close> is the same walk along \<^verbatim>\<open>previousSibling\<close>.
\<close>

fun walk_next :: "dom \<Rightarrow> handle option \<Rightarrow> handle list \<Rightarrow> bool" where
  "walk_next s p [] = (p = None)"
| "walk_next s p (c # cs) = (p = Some c \<and> live s c \<and> walk_next s (ptr s c m_nextSibling) cs)"

fun walk_prev :: "dom \<Rightarrow> handle option \<Rightarrow> handle list \<Rightarrow> bool" where
  "walk_prev s p [] = (p = None)"
| "walk_prev s p (c # cs) = (p = Some c \<and> live s c \<and> walk_prev s (ptr s c m_previousSibling) cs)"

text \<open>
  The claim's consistency of the child list of \<open>n\<close>: the forward walk from the first
  child visits some sequence \<open>cs\<close> and ends at null, the backward walk from the last child
  visits the reverse of \<open>cs\<close>, and every element of \<open>cs\<close> has the parent \<open>n\<close>.
\<close>

definition children_consistent :: "dom \<Rightarrow> handle \<Rightarrow> handle list \<Rightarrow> bool" where
  "children_consistent s n cs =
     (walk_next s (ptr s n m_firstChild) cs
      \<and> walk_prev s (ptr s n m_lastChild) (rev cs)
      \<and> list_all (\<lambda>c. ptr s c m_parent = Some n) cs)"

definition head_opt :: "'a list \<Rightarrow> 'a option" where
  "head_opt xs = (case xs of [] \<Rightarrow> None | x # _ \<Rightarrow> Some x)"

definition last_opt :: "'a list \<Rightarrow> 'a option" where
  "last_opt xs = (if xs = [] then None else Some (last xs))"

text \<open>
  A segment of a doubly linked child list of \<open>n\<close>: the elements \<open>cs\<close> are live children of
  \<open>n\<close>, each linked to its neighbours in \<open>cs\<close>; \<open>p\<close> is the previous sibling of the first
  and \<open>q\<close> the next sibling of the last.
\<close>

fun dlseg :: "dom \<Rightarrow> handle \<Rightarrow> handle option \<Rightarrow> handle list \<Rightarrow> handle option \<Rightarrow> bool" where
  "dlseg s n p [] q = True"
| "dlseg s n p (c # cs) q =
     (live s c \<and> ptr s c m_parent = Some n \<and> ptr s c m_previousSibling = p
      \<and> ptr s c m_nextSibling = (if cs = [] then q else head_opt cs)
      \<and> dlseg s n (Some c) cs q)"

definition child_list :: "dom \<Rightarrow> handle \<Rightarrow> handle list \<Rightarrow> bool" where
  "child_list s n cs =
     (distinct cs \<and> ptr s n m_firstChild = head_opt cs \<and> ptr s n m_lastChild = last_opt cs
      \<and> dlseg s n None cs None)"

text \<open>
  The invariant of the tree: every live element has a well-linked child list; an
  element with a parent is not its own parent and is on the child list of its live
  parent; an element without parent has no siblings.
\<close>

definition tree_inv :: "dom \<Rightarrow> bool" where
  "tree_inv s =
     ((\<forall>n. live s n \<longrightarrow> (\<exists>cs. child_list s n cs))
      \<and> (\<forall>c p. live s c \<longrightarrow> ptr s c m_parent = Some p \<longrightarrow>
             p \<noteq> c \<and> live s p \<and> (\<exists>cs. child_list s p cs \<and> c \<in> set cs))
      \<and> (\<forall>c. live s c \<longrightarrow> ptr s c m_parent = None \<longrightarrow>
             ptr s c m_nextSibling = None \<and> ptr s c m_previousSibling = None))"

subsection \<open>Sequences of tree operations\<close>

datatype tree_op =
  AppendChild handle handle | InsertBefore handle handle handle | RemoveChild handle handle

text \<open>
  \<open>AppendChild n x\<close> is \<^verbatim>\<open>n.appendChild(x)\<close>, \<open>InsertBefore n x e\<close> is \<^verbatim>\<open>n.insertBefore(x, e)\<close>,
  \<open>RemoveChild n c\<close> is \<^verbatim>\<open>n.removeChild(c)\<close>.
\<close>

fun exec_op :: "nat \<Rightarrow> dom \<Rightarrow> tree_op \<Rightarrow> dom outcome option" where
  "exec_op fuel s (AppendChild n x) = Some (appendChild s n x)"
| "exec_op fuel s (InsertBefore n x e) = Some (insertBefore s n x e)"
| "exec_op fuel s (RemoveChild n c) = removeChild fuel s n c"

text \<open>
  The arguments an operation is meant for: live elements; a new child that is
  detached and is not the receiver; for \<^verbatim>\<open>insertBefore\<close> an existing element that is a
  child of the receiver.  \<^verbatim>\<open>removeChild\<close> takes any live element: for a non-child it throws.
\<close>

fun op_ok :: "dom \<Rightarrow> tree_op \<Rightarrow> bool" where
  "op_ok s (AppendChild n x) =
     (live s n \<and> live s x \<and> x \<noteq> n \<and> ptr s x m_parent = None)"
| "op_ok s (InsertBefore n x e) =
     (live s n \<and> live s x \<and> live s e \<and> x \<noteq> n \<and> ptr s x m_parent = None
      \<and> ptr s e m_parent = Some n)"
| "op_ok s (RemoveChild n c) = (live s n \<and> live s c)"

text \<open>
  Running a sequence: an operation that throws leaves the state as it was at the
  \<^verbatim>\<open>throw\<close> and the caller goes on; undefined behaviour or exhausted fuel ends the run
  with \<open>None\<close>.
\<close>

fun run_ops :: "nat \<Rightarrow> dom \<Rightarrow> tree_op list \<Rightarrow> dom option" where
  "run_ops fuel s [] = Some s"
| "run_ops fuel s (x # xs) =
     (case exec_op fuel s x of
        Some (Done s') \<Rightarrow> run_ops fuel s' xs
      | Some (Raised e s') \<Rightarrow> run_ops fuel s' xs
      | Some Undefined \<Rightarrow> None
      | None \<Rightarrow> None)"

text \<open>
  Every operation of the sequence has proper arguments in the state it is applied to.
  Where an operation has no result state, the rest of the sequence is not constrained.
\<close>

fun ops_ok :: "nat \<Rightarrow> dom \<Rightarrow> tree_op list \<Rightarrow> bool" where
  "ops_ok fuel s [] = True"
| "ops_ok fuel s (x # xs) =
     (op_ok s x \<and>
      (case exec_op fuel s x of
         Some (Done s') \<Rightarrow> ops_ok fuel s' xs
       | Some (Raised e s') \<Rightarrow> ops_ok fuel s' xs
       | Some Undefined \<Rightarrow> True
       | None \<Rightarrow> True))"


subsection \<open>Two ingestions of the same markup\<close>

text \<open>
  The items of \<open><div id=x><p>Hello</p></div>\<close> as the tokeniser emits them; \<open>b\<close> is the
  flag \<^verbatim>\<open>processed\<close> of every item, \<open>False\<close> after the tokeniser and \<open>True\<close> after the build
  phase.
\<close>

definition hello_items :: "bool \<Rightarrow> parsedItem list" where
  "hello_items b =
     [(element, b, PFactory DIV), (attribute, b, PAttribute set_indexBy),
      (attributeValue, b, PString ''x''), (element, b, PFactory PARAGRAPH),
      (textData, b, PString ''Hello''), (elementTerminal, b, PString []),
      (elementTerminal, b, PString [])]"

text \<open>
  The document \<open>two_fresh\<close> with a \<open>DIV\<close> \<open>3\<close> of id \<open>x\<close> as the only child of the element
  \<open>1\<close>, and a \<open>PARAGRAPH\<close> \<open>4\<close> with the payload \<open>Hello\<close> as the only child of \<open>3\<close>.
\<close>

definition after_first :: dom where
  "after_first =
     \<lparr> elements =
         [1 \<mapsto> (new_Element DIV)\<lparr>m_firstChild := Some 3, m_lastChild := Some 3, m_childCount := 1\<rparr>,
          2 \<mapsto> new_Element DIV,
          3 \<mapsto> (new_Element DIV)\<lparr>m_parent := Some 1, m_firstChild := Some 4,
                                  m_lastChild := Some 4, m_childCount := 1,
                                  attr_indexBy := Some ''x''\<rparr>,
          4 \<mapsto> (new_Element PARAGRAPH)\<lparr>m_parent := Some 3, data_string := [''Hello'']\<rparr>],
       indexedElements = [''x'' \<mapsto> 3], next_handle = 5, eventTypeMap = None \<rparr>"

text \<open>
  The document \<open>after_first\<close> with a second \<open>DIV\<close> \<open>5\<close> of id \<open>x\<close>, with its own \<open>PARAGRAPH\<close>
  \<open>6\<close>, as the second child of the element \<open>1\<close>; the element \<open>2\<close> is as it was created.
\<close>

definition after_second :: dom where
  "after_second =
     \<lparr> elements =
         [1 \<mapsto> (new_Element DIV)\<lparr>m_firstChild := Some 3, m_lastChild := Some 5, m_childCount := 2\<rparr>,
          2 \<mapsto> new_Element DIV,
          3 \<mapsto> (new_Element DIV)\<lparr>m_parent := Some 1, m_firstChild := Some 4,
                                  m_lastChild := Some 4, m_nextSibling := Some 5, m_childCount := 1,
                                  attr_indexBy := Some ''x''\<rparr>,
          4 \<mapsto> (new_Element PARAGRAPH)\<lparr>m_parent := Some 3, data_string := [''Hello'']\<rparr>,
          5 \<mapsto> (new_Element DIV)\<lparr>m_parent := Some 1, m_previousSibling := Some 3,
                                  m_firstChild := Some 6, m_lastChild := Some 6, m_childCount := 1,
                                  attr_indexBy := Some ''x''\<rparr>,
          6 \<mapsto> (new_Element PARAGRAPH)\<lparr>m_parent := Some 5, data_string := [''Hello'']\<rparr>],
       indexedElements = [''x'' \<mapsto> 3], next_handle = 7, eventTypeMap = None \<rparr>"
section \<open>Evaluation lemmas\<close>

lemmas normalise_defs = lowercase_def strip_spaces_def isspace_def tolower_def

lemmas tokenize_defs =
  tokenize_def tokenize_char_def tokenize_capture_def tokenize_query_def tokenize_switch_def
  emplace_back_def c_str_def objectFactoryMap_def attributeFactory_def pc_init_def normalise_defs

lemmas heap_defs = upd_def ptr_def live_def live_opt_def new_Element_def

lemma elementStack_pc_init [simp]: "elementStack pc_init = []"
  by (simp add: pc_init_def)

section \<open>Colour names\<close>

text \<open>
  C8.  The name \<open>Cornflower Blue\<close> is normalised to the key \<open>cornflowerblue\<close> and found with
  the value \<open>0x6495ED\<close>.  The constructor then takes the channels from the bits 24 to 31,
  16 to 23 and 8 to 15 of the value: the quadruple is \<open>(0, 0x64, 0x95, 1)\<close>, not
  \<open>(0x64, 0x95, 0xED, 1)\<close>; the blue byte is never read.  The unknown name \<open>notacolor\<close>
  gives \<open>(0, 0, 0, 1)\<close>.
\<close>

theorem colorNF_cornflower_blue_channels:
  "colorIndex ''Cornflower Blue'' = Some 0x6495ED
   \<and> colorNF_of_string ''Cornflower Blue'' = \<lparr> coption = name, cvalue = [0, 100, 149, 1] \<rparr>
   \<and> colorNF_of_string ''notacolor'' = \<lparr> coption = name, cvalue = [0, 0, 0, 1] \<rparr>"
  by (simp add: colorNF_of_string_def colorIndex_def colorFactory_def normalise_defs)

section \<open>Enumerated options\<close>

lemma strToEnum_cases:
  "strToEnum sListName optionMap sOption = Undef
   \<or> strToEnum sListName optionMap sOption
        = Threw (invalid_argument (sListName @ '' attribute string option not found: '' @ sOption))"
  by (simp add: strToEnum_def split: option.split)

text \<open>
  C10.  \<^verbatim>\<open>strToEnum\<close> never returns a value: on a key of the table it stores the mapped
  constant in a local and flows off the end of the function.  So the constructor
  \<^verbatim>\<open>display("block")\<close> has no defined value to cast.
\<close>

theorem strToEnum_returns_nothing:
  "strToEnum sListName optionMap sOption \<noteq> Returned v
   \<and> map_of (display_enumMap enc) (lowercase (strip_spaces ''block'')) = Some (enc block)
   \<and> display_of_string enc ''block'' = Undef"
proof -
  have "strToEnum sListName optionMap sOption \<noteq> Returned v"
    using strToEnum_cases [of sListName optionMap sOption] by auto
  moreover have "map_of (display_enumMap enc) (lowercase (strip_spaces ''block'')) = Some (enc block)"
    by (simp add: display_enumMap_def normalise_defs)
  moreover have "display_of_string enc ''block'' = Undef"
    by (simp add: display_of_string_def strToEnum_def display_enumMap_def normalise_defs)
  ultimately show ?thesis by simp
qed

section \<open>Tree operations on the example document\<close>

text \<open>
  C5.  In the example document \<open>2\<close> is followed by \<open>3\<close>.  After \<^verbatim>\<open>insertAfter(4, 2)\<close> on the
  root the element \<open>2\<close> is followed by \<open>4\<close> and \<open>3\<close> is preceded by \<open>4\<close>, but the
  \<^verbatim>\<open>m_nextSibling\<close> of \<open>4\<close> is the former \<^verbatim>\<open>m_previousSibling\<close> of \<open>2\<close> (null), not \<open>3\<close>: the
  forward walk from the first child ends at \<open>4\<close>.
\<close>

theorem insertAfter_next_is_old_previous:
  "ptr example_doc 2 m_nextSibling = Some 3
   \<and> ptr example_doc 2 m_previousSibling = None
   \<and> (\<exists>s'. insertAfter example_doc 1 4 2 = Done s'
          \<and> ptr s' 2 m_nextSibling = Some 4
          \<and> ptr s' 4 m_previousSibling = Some 2
          \<and> ptr s' 3 m_previousSibling = Some 4
          \<and> ptr s' 4 m_nextSibling = None)"
  by (simp add: insertAfter_def example_doc_def heap_defs Let_def)

text \<open>
  C2.  In the example document \<open>2\<close> is a child of the root and has the child \<open>5\<close>.
  \<^verbatim>\<open>removeChild(2)\<close> on the root calls \<^verbatim>\<open>removeChild(5)\<close> on the element \<open>5\<close> itself, whose
  parent is \<open>2\<close>: the call throws and nothing is removed.  \<^verbatim>\<open>replaceChild(4, 2)\<close> completes
  and destroys \<open>2\<close>, but its child \<open>5\<close> stays in the registry and in the string index.
\<close>

theorem removeChild_replaceChild_keep_descendants:
  "removeChild (Suc (Suc (Suc fuel))) example_doc 1 2
     = Some (Raised (invalid_argument ''Referenced element is not a child.'') example_doc)
   \<and> (\<exists>s'. replaceChild example_doc 1 4 2 = Done s'
          \<and> \<not> live s' 2 \<and> live s' 5 \<and> indexedElements s' ''g'' = Some 5)"
  by (simp add: replaceChild_def erase_index_of_def getAttribute_indexBy_def erase_element_def
        example_doc_def heap_defs Let_def)

section \<open>Listeners and queries on the example document\<close>

text \<open>
  C6.  After \<^verbatim>\<open>addListener(click, h)\<close> and \<^verbatim>\<open>removeListener(click, h)\<close> with the same
  function pointer \<open>h\<close> the listener vector of the element still holds \<open>h\<close>: the
  removal works on a copy of the vector.
\<close>

theorem removeListener_keeps_listener:
  "\<exists>s1 s2. addListener example_doc 1 click (FnPtr 7) = Done s1
      \<and> listeners_of s1 1 click = [FnPtr 7]
      \<and> removeListener s1 1 click (FnPtr 7) = Done s2
      \<and> listeners_of s2 1 click = [FnPtr 7]"
  by (simp add: addListener_def removeListener_def getEventVector_def listeners_of_def
        example_doc_def heap_defs Let_def)

text \<open>
  C7.  The elements \<open>1\<close>, \<open>3\<close>, \<open>4\<close> and \<open>6\<close> of the example document carry no id.  Whatever
  matcher the pattern \<open>c\<close> compiles to, the query leaves by the exception of the typed
  getter at the first of them; it does not return the element \<open>2\<close>, whose id is \<open>c\<close>.
\<close>

theorem query_throws_without_id:
  "query (\<lambda>p. Some m) example_doc [2, 5, 3, 1, 4, 6] ''c'' = Threw attribute_not_set
   \<and> query rx example_doc [2, 5, 3, 1, 4, 6] ''*'' = Returned [2, 5, 3, 1, 4, 6]"
  by (simp add: query_def getAttribute_indexBy_def c_str_def example_doc_def heap_defs)

section \<open>Markup ingestion\<close>

lemma tokenize_div_p_hello:
  "tokenize (pc_init\<lparr>elementStack := [1]\<rparr>) ''<div id=x><p>Hello</p></div>'' =
     pc_init\<lparr>elementStack := [1], parsedData :=
       [(element, False, PFactory DIV), (attribute, False, PAttribute set_indexBy),
        (attributeValue, False, PString ''x''), (element, False, PFactory PARAGRAPH),
        (textData, False, PString ''Hello''), (elementTerminal, False, PString []),
        (elementTerminal, False, PString [])]\<rparr>"
  by (simp add: tokenize_defs)

lemma build_div_p_hello:
  "build other (fresh_root c) [1] []
     [(element, False, PFactory DIV), (attribute, False, PAttribute set_indexBy),
      (attributeValue, False, PString ''x''), (element, False, PFactory PARAGRAPH),
      (textData, False, PString ''Hello''), (elementTerminal, False, PString []),
      (elementTerminal, False, PString [])] =
   Done (\<lparr> elements =
             [1 \<mapsto> (new_Element c)\<lparr>m_firstChild := Some 2, m_lastChild := Some 2,
                                    m_childCount := 1\<rparr>,
              2 \<mapsto> (new_Element DIV)\<lparr>m_parent := Some 1, m_firstChild := Some 3,
                                      m_lastChild := Some 3, m_childCount := 1,
                                      attr_indexBy := Some ''x''\<rparr>,
              3 \<mapsto> (new_Element PARAGRAPH)\<lparr>m_parent := Some 2, data_string := [''Hello'']\<rparr>],
           indexedElements = [''x'' \<mapsto> 2], next_handle = 4, eventTypeMap = None \<rparr>,
         [1],
         [(element, True, PFactory DIV), (attribute, True, PAttribute set_indexBy),
          (attributeValue, True, PString ''x''), (element, True, PFactory PARAGRAPH),
          (textData, True, PString ''Hello''), (elementTerminal, True, PString []),
          (elementTerminal, True, PString [])])"
  by (simp add: fresh_root_def createElement_def appendChild_def setAttribute_indexBy_def
        updateIndexBy_def index_insert_def heap_defs Let_def)

text \<open>
  The first ingestion of a program.  On a document that holds only a fresh root (handle
  \<open>1\<close>) and with the parser context in its initial state, ingesting
  \<open><div id=x><p>Hello</p></div>\<close> creates the elements \<open>2\<close> and \<open>3\<close>: \<open>2\<close> is the only child
  of the root, of class \<open>DIV\<close> with id \<open>x\<close> (and indexed under \<open>x\<close>); \<open>3\<close> is the only child
  of \<open>2\<close>, of class \<open>PARAGRAPH\<close> (the class of the tag \<open>p\<close>), with the payload \<open>Hello\<close>.  The
  target stays on the stack of the parser context.
\<close>

lemma ingestMarkup_div_p_hello:
  "ingestMarkup other (fresh_root c) pc_init 1 ''<div id=x><p>Hello</p></div>'' =
   Done (\<lparr> elements =
             [1 \<mapsto> (new_Element c)\<lparr>m_firstChild := Some 2, m_lastChild := Some 2,
                                    m_childCount := 1\<rparr>,
              2 \<mapsto> (new_Element DIV)\<lparr>m_parent := Some 1, m_firstChild := Some 3,
                                      m_lastChild := Some 3, m_childCount := 1,
                                      attr_indexBy := Some ''x''\<rparr>,
              3 \<mapsto> (new_Element PARAGRAPH)\<lparr>m_parent := Some 2, data_string := [''Hello'']\<rparr>],
           indexedElements = [''x'' \<mapsto> 2], next_handle = 4, eventTypeMap = None \<rparr>,
         pc_init\<lparr>elementStack := [1], parsedData :=
           [(element, True, PFactory DIV), (attribute, True, PAttribute set_indexBy),
            (attributeValue, True, PString ''x''), (element, True, PFactory PARAGRAPH),
            (textData, True, PString ''Hello''), (elementTerminal, True, PString []),
            (elementTerminal, True, PString [])]\<rparr>)"
proof -
  let ?pc1 = "tokenize (pc_init\<lparr>elementStack := [1]\<rparr>) ''<div id=x><p>Hello</p></div>''"
  have stack: "elementStack ?pc1 = [1]"
    by (simp only: tokenize_div_p_hello) simp
  have items: "parsedData ?pc1 =
       [(element, False, PFactory DIV), (attribute, False, PAttribute set_indexBy),
        (attributeValue, False, PString ''x''), (element, False, PFactory PARAGRAPH),
        (textData, False, PString ''Hello''), (elementTerminal, False, PString []),
        (elementTerminal, False, PString [])]"
    by (simp only: tokenize_div_p_hello) simp
  have pc0: "(if elementStack pc_init = [] then pc_init\<lparr>elementStack := [1]\<rparr> else pc_init)
               = pc_init\<lparr>elementStack := [1]\<rparr>"
    by simp
  have b: "build other (fresh_root c) (elementStack ?pc1) [] (parsedData ?pc1) =
     Done (\<lparr> elements =
             [1 \<mapsto> (new_Element c)\<lparr>m_firstChild := Some 2, m_lastChild := Some 2,
                                    m_childCount := 1\<rparr>,
              2 \<mapsto> (new_Element DIV)\<lparr>m_parent := Some 1, m_firstChild := Some 3,
                                      m_lastChild := Some 3, m_childCount := 1,
                                      attr_indexBy := Some ''x''\<rparr>,
              3 \<mapsto> (new_Element PARAGRAPH)\<lparr>m_parent := Some 2, data_string := [''Hello'']\<rparr>],
           indexedElements = [''x'' \<mapsto> 2], next_handle = 4, eventTypeMap = None \<rparr>,
         [1],
         [(element, True, PFactory DIV), (attribute, True, PAttribute set_indexBy),
          (attributeValue, True, PString ''x''), (element, True, PFactory PARAGRAPH),
          (textData, True, PString ''Hello''), (elementTerminal, True, PString []),
          (elementTerminal, True, PString [])])"
    unfolding stack items by (rule build_div_p_hello)
  have "ingestMarkup other (fresh_root c) pc_init 1 ''<div id=x><p>Hello</p></div>'' =
        (case build other (fresh_root c) (elementStack ?pc1) [] (parsedData ?pc1) of
           Done (s', stack', items') \<Rightarrow>
             (if stack' = [] then Undefined
              else Done (s', ?pc1\<lparr>parsedData := items', elementStack := stack'\<rparr>))
         | Raised x (s', stack', items') \<Rightarrow>
             Raised x (s', ?pc1\<lparr>parsedData := items', elementStack := stack'\<rparr>)
         | Undefined \<Rightarrow> Undefined)"
    unfolding ingestMarkup_def Let_def pc0 by (rule refl)
  also have "\<dots> = Done (\<lparr> elements =
             [1 \<mapsto> (new_Element c)\<lparr>m_firstChild := Some 2, m_lastChild := Some 2,
                                    m_childCount := 1\<rparr>,
              2 \<mapsto> (new_Element DIV)\<lparr>m_parent := Some 1, m_firstChild := Some 3,
                                      m_lastChild := Some 3, m_childCount := 1,
                                      attr_indexBy := Some ''x''\<rparr>,
              3 \<mapsto> (new_Element PARAGRAPH)\<lparr>m_parent := Some 2, data_string := [''Hello'']\<rparr>],
           indexedElements = [''x'' \<mapsto> 2], next_handle = 4, eventTypeMap = None \<rparr>,
         ?pc1\<lparr>parsedData :=
           [(element, True, PFactory DIV), (attribute, True, PAttribute set_indexBy),
            (attributeValue, True, PString ''x''), (element, True, PFactory PARAGRAPH),
            (textData, True, PString ''Hello''), (elementTerminal, True, PString []),
            (elementTerminal, True, PString [])], elementStack := [1]\<rparr>)"
    unfolding b by simp
  also have "?pc1\<lparr>parsedData :=
           [(element, True, PFactory DIV), (attribute, True, PAttribute set_indexBy),
            (attributeValue, True, PString ''x''), (element, True, PFactory PARAGRAPH),
            (textData, True, PString ''Hello''), (elementTerminal, True, PString []),
            (elementTerminal, True, PString [])], elementStack := [1]\<rparr> =
        pc_init\<lparr>elementStack := [1], parsedData :=
           [(element, True, PFactory DIV), (attribute, True, PAttribute set_indexBy),
            (attributeValue, True, PString ''x''), (element, True, PFactory PARAGRAPH),
            (textData, True, PString ''Hello''), (elementTerminal, True, PString []),
            (elementTerminal, True, PString [])]\<rparr>"
    unfolding tokenize_div_p_hello by simp
  finally show ?thesis .
qed

section \<open>The element stack of the build phase\<close>

text \<open>
  One item of the build phase either ends the walk with the stack it found, or continues
  on a shorter item list with a stack that has the same bottom element.
\<close>

lemma hd_butlast_long: "2 \<le> length xs \<Longrightarrow> hd (butlast xs) = hd xs"
  by (cases xs) auto

lemma build_step:
  assumes out: "outcome_stack (build other s stack done (item # rest)) = Some st"
    and len: "length stack = Suc n"
    and cw: "closes_within n (item # rest)"
  shows "st = stack \<or>
         (\<exists>s2 stack2 done2 rest2 n2.
            length rest2 \<le> length rest \<and> length stack2 = Suc n2 \<and> hd stack2 = hd stack
            \<and> closes_within n2 rest2
            \<and> outcome_stack (build other s2 stack2 done2 rest2) = Some st)"
proof -
  obtain ty processed payload where item: "item = (ty, processed, payload)"
    by (cases item) auto
  from len have ne: "stack \<noteq> []" by auto
  show ?thesis
  proof (cases processed)
    case True
    with out cw item len show ?thesis
      by (intro disjI2 exI [of _ s] exI [of _ stack] exI [of _ "done @ [item]"] exI [of _ rest]
            exI [of _ n]) simp
  next
    case False
    note np = this
    show ?thesis
    proof (cases ty)
      case element
      show ?thesis
      proof (cases payload)
        case (PFactory cls)
        obtain e s1 where ce: "createElement s cls = (e, s1)" by (cases "createElement s cls")
        show ?thesis
        proof (cases "appendChild s1 (last stack) e")
          case (Done s2)
          with out cw item len np element PFactory ce ne show ?thesis
            by (intro disjI2 exI [of _ s2] exI [of _ "stack @ [e]"]
                  exI [of _ "done @ [(ty, True, payload)]"] exI [of _ rest] exI [of _ "Suc n"])
               (simp add: hd_append)
        next
          case (Raised x s2)
          with out item np element PFactory ce ne show ?thesis by simp
        next
          case Undefined
          with out item np element PFactory ce ne show ?thesis by simp
        qed
      qed (use out item np element in simp_all)
    next
      case elementTerminal
      from cw item np elementTerminal obtain m where n: "n = Suc m" and cwm: "closes_within m rest"
        by (cases n) auto
      with out item len np elementTerminal ne show ?thesis
        by (intro disjI2 exI [of _ s] exI [of _ "butlast stack"]
              exI [of _ "done @ [(ty, True, payload)]"] exI [of _ rest] exI [of _ m])
           (simp add: hd_butlast_long)
    next
      case attribute
      consider (val) vp vpl rest' where "rest = (attributeValue, vp, vpl) # rest'"
        | (plain) "build other s stack done (item # rest)
                     = build other s stack (done @ [(ty, True, payload)]) rest"
                  "closes_within n rest"
      proof (cases rest)
        case Nil
        with cw item np attribute show ?thesis by (intro that(2)) simp_all
      next
        case (Cons v rest')
        obtain vty vp vpl where v: "v = (vty, vp, vpl)" by (cases v) auto
        show ?thesis
        proof (cases "vty = attributeValue")
          case True
          with Cons v show ?thesis by (intro that(1)) simp
        next
          case False
          with cw item np attribute Cons v show ?thesis
            by (intro that(2)) (cases vty; simp)+
        qed
      qed
      then show ?thesis
      proof cases
        case val
        from cw item np attribute val have cw': "closes_within n rest'" by simp
        show ?thesis
        proof (cases payload)
          case (PAttribute f)
          show ?thesis
          proof (cases vpl)
            case (PString v)
            show ?thesis
            proof (cases "apply_attribute other s (last stack) f v")
              case (Done s1)
              with out cw' item len np attribute val PAttribute PString ne show ?thesis
                by (intro disjI2 exI [of _ s1] exI [of _ stack]
                      exI [of _ "done @ [(ty, True, payload), (attributeValue, True, vpl)]"]
                      exI [of _ rest'] exI [of _ n]) simp
            next
              case (Raised x s1)
              with out item np attribute val PAttribute PString ne show ?thesis by simp
            next
              case Undefined
              with out item np attribute val PAttribute PString ne show ?thesis by simp
            qed
          qed (use out item np attribute val PAttribute ne in simp_all)
        qed (use out item np attribute val in simp_all)
      next
        case plain
        with out len show ?thesis
          by (intro disjI2 exI [of _ s] exI [of _ stack] exI [of _ "done @ [(ty, True, payload)]"]
                exI [of _ rest] exI [of _ n]) simp
      qed
    next
      case attributeValue
      with out cw item len np show ?thesis
        by (intro disjI2 exI [of _ s] exI [of _ stack] exI [of _ "done @ [item]"] exI [of _ rest]
              exI [of _ n]) simp
    next
      case attributeSimple
      with out cw item len np show ?thesis
        by (intro disjI2 exI [of _ s] exI [of _ stack] exI [of _ "done @ [item]"] exI [of _ rest]
              exI [of _ n]) simp
    next
      case color
      show ?thesis
      proof (cases payload)
        case (PColor col)
        show ?thesis
        proof (cases "appendChild_textNode s (last stack) col")
          case None
          with out item np color PColor ne show ?thesis by simp
        next
          case (Some r)
          obtain e s1 where r: "r = (e, s1)" by (cases r) auto
          with Some out cw item len np color PColor ne show ?thesis
            by (intro disjI2 exI [of _ s1] exI [of _ "stack @ [e]"]
                  exI [of _ "done @ [(ty, True, payload)]"] exI [of _ rest] exI [of _ "Suc n"])
               (simp add: hd_append)
        qed
      qed (use out item np color in simp_all)
    next
      case textData
      show ?thesis
      proof (cases "live s (last stack)")
        case True
        show ?thesis
        proof (cases payload)
          case (PString tx)
          with True out cw item len np textData ne show ?thesis
            by (intro disjI2
                  exI [of _ "upd s (last stack) (\<lambda>e. e\<lparr>data_string := data_string e @ [tx]\<rparr>)"]
                  exI [of _ stack] exI [of _ "done @ [(ty, True, payload)]"] exI [of _ rest]
                  exI [of _ n]) simp
        qed (use True out item np textData ne in simp_all)
      next
        case False
        with out item np textData show ?thesis by (cases payload) simp_all
      qed
    qed
  qed
qed


lemma build_keeps_bottom:
  "length stack = Suc n \<Longrightarrow> closes_within n items
   \<Longrightarrow> outcome_stack (build other s stack done items) = Some st
   \<Longrightarrow> st \<noteq> [] \<and> hd st = hd stack"
proof (induction "length items" arbitrary: items s stack "done" n rule: less_induct)
  case less
  show ?case
  proof (cases items)
    case Nil
    with less.prems show ?thesis by auto
  next
    case (Cons item rest)
    from build_step [OF less.prems(3) [unfolded Cons] less.prems(1) less.prems(2) [unfolded Cons]]
    show ?thesis
    proof
      assume "st = stack"
      with less.prems(1) show ?thesis by auto
    next
      assume "\<exists>s2 stack2 done2 rest2 n2.
            length rest2 \<le> length rest \<and> length stack2 = Suc n2 \<and> hd stack2 = hd stack
            \<and> closes_within n2 rest2
            \<and> outcome_stack (build other s2 stack2 done2 rest2) = Some st"
      then obtain s2 stack2 done2 rest2 n2 where
        h: "length rest2 \<le> length rest" "length stack2 = Suc n2" "hd stack2 = hd stack"
           "closes_within n2 rest2" "outcome_stack (build other s2 stack2 done2 rest2) = Some st"
        by blast
      from h(1) Cons have "length rest2 < length items" by simp
      from less.hyps [OF this h(2) h(4) h(5)] h(3) show ?thesis by simp
    qed
  qed
qed


lemma tokenize_close_div:
  "tokenize (pc_init\<lparr>elementStack := [1]\<rparr>) ''</div>'' =
     pc_init\<lparr>elementStack := [1], parsedData := [(elementTerminal, False, PString [])]\<rparr>"
  by (simp add: tokenize_defs)

text \<open>
  An \<open>elementTerminal\<close> item pops the stack without any check against the ingestion
  target.  The bottom element of the stack stays where it is for every item list in which
  each unprocessed \<open>elementTerminal\<close> item finds an element above it, that is, as long as
  closing tags do not outnumber the elements opened.
\<close>

lemma build_keeps_target:
  assumes "closes_within (length opened) items"
    and "outcome_stack (build other s (target # opened) done items) = Some st"
  shows "\<exists>opened'. st = target # opened'"
proof -
  have "length (target # opened) = Suc (length opened)" by simp
  from build_keeps_bottom [OF this assms(1) assms(2)]
  have "st \<noteq> []" and "hd st = target" by simp_all
  then show ?thesis by (cases st) auto
qed

lemma build_keeps_target_example:
  "closes_within (length ([] :: handle list))
     [(element, False, PFactory DIV), (attribute, False, PAttribute set_indexBy),
      (attributeValue, False, PString ''x''), (element, False, PFactory PARAGRAPH),
      (textData, False, PString ''Hello''), (elementTerminal, False, PString []),
      (elementTerminal, False, PString [])]
   \<and> outcome_stack (build inert_setters (fresh_root DIV) (1 # []) []
         [(element, False, PFactory DIV), (attribute, False, PAttribute set_indexBy),
          (attributeValue, False, PString ''x''), (element, False, PFactory PARAGRAPH),
          (textData, False, PString ''Hello''), (elementTerminal, False, PString []),
          (elementTerminal, False, PString [])]) = Some [1]
   \<and> (\<exists>opened'. [1 :: handle] = 1 # opened')"
proof -
  let ?items = "[(element, False, PFactory DIV), (attribute, False, PAttribute set_indexBy),
      (attributeValue, False, PString ''x''), (element, False, PFactory PARAGRAPH),
      (textData, False, PString ''Hello''), (elementTerminal, False, PString []),
      (elementTerminal, False, PString [])]"
  have h1: "closes_within (length ([] :: handle list)) ?items" by simp
  have h2: "outcome_stack (build inert_setters (fresh_root DIV) (1 # []) [] ?items) = Some [1]"
    by (simp only: build_div_p_hello outcome_stack.simps)
  from build_keeps_target [OF h1 h2] h1 h2 show ?thesis by simp
qed

text \<open>
  C9.  The claim is that a closing tag in excess is ignored and the ingestion target
  remains on the stack.  The code pops the target: on the markup \<open></div>\<close> ingested
  against a fresh root the tokeniser emits one \<open>elementTerminal\<close> item, the build phase
  pops the ingestion target \<open>1\<close> and ends with an empty stack, and the ingestion call then
  takes \<^verbatim>\<open>back()\<close> of the empty stack, which is undefined behaviour.
\<close>

theorem excess_close_pops_target:
  "parsedData (tokenize (pc_init\<lparr>elementStack := [1]\<rparr>) ''</div>'')
     = [(elementTerminal, False, PString [])]
   \<and> build inert_setters (fresh_root DIV) [1] [] [(elementTerminal, False, PString [])]
     = Done (fresh_root DIV, [], [(elementTerminal, True, PString [])])
   \<and> ingestMarkup inert_setters (fresh_root DIV) pc_init 1 ''</div>'' = Undefined"
proof -
  let ?pc1 = "tokenize (pc_init\<lparr>elementStack := [1]\<rparr>) ''</div>''"
  have pc0: "(if elementStack pc_init = [] then pc_init\<lparr>elementStack := [1]\<rparr> else pc_init)
               = pc_init\<lparr>elementStack := [1]\<rparr>"
    by simp
  have items: "parsedData ?pc1 = [(elementTerminal, False, PString [])]"
    unfolding tokenize_close_div by simp
  have stack: "elementStack ?pc1 = [1]"
    unfolding tokenize_close_div by simp
  have b: "build inert_setters (fresh_root DIV) [1] [] [(elementTerminal, False, PString [])]
             = Done (fresh_root DIV, [], [(elementTerminal, True, PString [])])"
    by simp
  have "ingestMarkup inert_setters (fresh_root DIV) pc_init 1 ''</div>'' = Undefined"
    unfolding ingestMarkup_def Let_def pc0 stack items b by simp
  with items b show ?thesis by simp
qed

section \<open>The identity attribute and the string index\<close>

lemma id_of_simps [simp]:
  "attr_indexBy e = None \<Longrightarrow> id_of e = []"
  "attr_indexBy e = Some k \<Longrightarrow> id_of e = k"
  by (simp_all add: id_of_def)

text \<open>What the index is after one assignment of the id, by the case table.\<close>

lemma updateIndexBy_table:
  assumes "elements s h = Some e" and "id_of e \<noteq> [] \<longrightarrow> indexedElements s (id_of e) \<noteq> None"
  shows "\<exists>s'. updateIndexBy s h newKey = Done s' \<and> elements s' = elements s
           \<and> next_handle s' = next_handle s \<and> eventTypeMap s' = eventTypeMap s
           \<and> indexedElements s' =
               (if id_of e \<noteq> [] \<and> id_of e = newKey then indexedElements s
                else if id_of e \<noteq> [] \<and> newKey \<noteq> [] then
                  index_insert ((indexedElements s)(id_of e := None)) newKey
                    (case indexedElements s (id_of e) of Some r \<Rightarrow> r | None \<Rightarrow> h)
                else if id_of e \<noteq> [] then (indexedElements s)(id_of e := None)
                else if newKey \<noteq> [] then index_insert (indexedElements s) newKey h
                else indexedElements s)"
  using assms by (auto simp: updateIndexBy_def id_of_def Let_def split: option.splits)

lemma index_exact_old_key:
  assumes "index_exact s" "elements s h = Some e" "id_of e \<noteq> []"
  shows "indexedElements s (id_of e) = Some h"
  using assms unfolding index_exact_def id_of_def by (auto split: option.splits)

lemma index_exact_empty_key:
  assumes "index_exact s"
  shows "indexedElements s [] = None"
  using assms unfolding index_exact_def by (cases "indexedElements s []") auto

lemma setAttribute_indexBy_exact:
  assumes ex: "index_exact s" and e: "elements s h = Some e"
    and free: "newKey = [] \<or> id_of e = newKey \<or> indexedElements s newKey = None"
  shows "\<exists>s'. setAttribute_indexBy s h newKey = Done s' \<and> index_exact s'
            \<and> elements s' = (elements s)(h \<mapsto> e\<lparr>attr_indexBy := Some newKey\<rparr>)
            \<and> indexedElements s' =
                (if id_of e = newKey then indexedElements s
                 else if newKey = [] then (indexedElements s)(id_of e := None)
                 else (indexedElements s)(id_of e := None, newKey \<mapsto> h))"
proof -
  have old: "id_of e \<noteq> [] \<longrightarrow> indexedElements s (id_of e) = Some h"
    using index_exact_old_key [OF ex e] by simp
  have emp: "indexedElements s [] = None"
    by (rule index_exact_empty_key [OF ex])
  from updateIndexBy_table [OF e, of newKey] old
  obtain s1 where u: "updateIndexBy s h newKey = Done s1"
    and el1: "elements s1 = elements s"
    and idx1: "indexedElements s1 =
               (if id_of e \<noteq> [] \<and> id_of e = newKey then indexedElements s
                else if id_of e \<noteq> [] \<and> newKey \<noteq> [] then
                  index_insert ((indexedElements s)(id_of e := None)) newKey
                    (case indexedElements s (id_of e) of Some r \<Rightarrow> r | None \<Rightarrow> h)
                else if id_of e \<noteq> [] then (indexedElements s)(id_of e := None)
                else if newKey \<noteq> [] then index_insert (indexedElements s) newKey h
                else indexedElements s)"
    by auto
  let ?s' = "upd s1 h (\<lambda>e. e\<lparr>attr_indexBy := Some newKey\<rparr>)"
  have res: "setAttribute_indexBy s h newKey = Done ?s'"
    by (simp add: setAttribute_indexBy_def u)
  have el': "elements ?s' = (elements s)(h \<mapsto> e\<lparr>attr_indexBy := Some newKey\<rparr>)"
    using e el1 by (simp add: upd_def)
  have idx0: "indexedElements ?s' = indexedElements s1"
    using e el1 by (simp add: upd_def)
  have idx': "indexedElements ?s' =
                (if id_of e = newKey then indexedElements s
                 else if newKey = [] then (indexedElements s)(id_of e := None)
                 else (indexedElements s)(id_of e := None, newKey \<mapsto> h))"
  proof (cases "id_of e = newKey")
    case True
    then show ?thesis unfolding idx0 idx1 using emp by (auto simp: index_insert_def)
  next
    case False
    with free have fr: "newKey = [] \<or> indexedElements s newKey = None" by auto
    show ?thesis
    proof (cases "newKey = []")
      case True
      with False emp show ?thesis unfolding idx0 idx1 by auto
    next
      case nk: False
      with fr have "indexedElements s newKey = None" by simp
      with False nk old emp show ?thesis
        unfolding idx0 idx1 by (auto simp: index_insert_def fun_upd_idem)
    qed
  qed
  have "index_exact ?s'"
    unfolding index_exact_def
  proof (intro allI)
    fix k h'
    have exk: "indexedElements s k = Some h'
            \<longleftrightarrow> k \<noteq> [] \<and> (\<exists>e. elements s h' = Some e \<and> attr_indexBy e = Some k)"
      using ex unfolding index_exact_def by blast
    show "indexedElements ?s' k = Some h'
            \<longleftrightarrow> k \<noteq> [] \<and> (\<exists>e. elements ?s' h' = Some e \<and> attr_indexBy e = Some k)"
    proof (cases "h' = h")
      case True
      show ?thesis
      proof (cases "k = newKey")
        case kn: True
        with True exk old emp e free show ?thesis
          unfolding el' idx' by (auto simp: id_of_def split: option.splits)
      next
        case kn: False
        with True exk old emp e free show ?thesis
          unfolding el' idx' by (auto simp: id_of_def split: option.splits)
      qed
    next
      case False
      show ?thesis
      proof (cases "k = newKey")
        case kn: True
        with False exk old emp e free show ?thesis
          unfolding el' idx' by (auto simp: id_of_def split: option.splits)
      next
        case kn: False
        with False exk old emp e free show ?thesis
          unfolding el' idx' by (auto simp: id_of_def split: option.splits)
      qed
    qed
  qed
  with res el' idx' show ?thesis by blast
qed

text \<open>One assignment of the id, when the old id (if not empty) is in the index.\<close>

lemma setAttribute_indexBy_step:
  assumes e: "elements s h = Some e"
    and old: "id_of e \<noteq> [] \<longrightarrow> indexedElements s (id_of e) \<noteq> None"
  shows "\<exists>s'. setAttribute_indexBy s h newKey = Done s'
           \<and> elements s' h = Some (e\<lparr>attr_indexBy := Some newKey\<rparr>)
           \<and> indexedElements s' =
               (if id_of e \<noteq> [] \<and> id_of e = newKey then indexedElements s
                else if id_of e \<noteq> [] \<and> newKey \<noteq> [] then
                  index_insert ((indexedElements s)(id_of e := None)) newKey
                    (case indexedElements s (id_of e) of Some r \<Rightarrow> r | None \<Rightarrow> h)
                else if id_of e \<noteq> [] then (indexedElements s)(id_of e := None)
                else if newKey \<noteq> [] then index_insert (indexedElements s) newKey h
                else indexedElements s)"
proof -
  from updateIndexBy_table [OF e old, of newKey]
  obtain s1 where u: "updateIndexBy s h newKey = Done s1"
    and el1: "elements s1 = elements s"
    and idx1: "indexedElements s1 =
               (if id_of e \<noteq> [] \<and> id_of e = newKey then indexedElements s
                else if id_of e \<noteq> [] \<and> newKey \<noteq> [] then
                  index_insert ((indexedElements s)(id_of e := None)) newKey
                    (case indexedElements s (id_of e) of Some r \<Rightarrow> r | None \<Rightarrow> h)
                else if id_of e \<noteq> [] then (indexedElements s)(id_of e := None)
                else if newKey \<noteq> [] then index_insert (indexedElements s) newKey h
                else indexedElements s)"
    by auto
  let ?s' = "upd s1 h (\<lambda>e. e\<lparr>attr_indexBy := Some newKey\<rparr>)"
  have "setAttribute_indexBy s h newKey = Done ?s'"
    by (simp add: setAttribute_indexBy_def u)
  moreover have "elements ?s' h = Some (e\<lparr>attr_indexBy := Some newKey\<rparr>)"
    using e el1 by (simp add: upd_def)
  moreover have "indexedElements ?s' = indexedElements s1"
    using e el1 by (simp add: upd_def)
  ultimately show ?thesis using idx1 by auto
qed

lemma index_insert_present: "index_insert m k h k \<noteq> None"
  by (simp add: index_insert_def split: option.split)

lemma index_insert_present_ex: "\<exists>y. index_insert m k h k = Some y"
  using index_insert_present [of m k h] by auto

lemma index_insert_other: "k' \<noteq> k \<Longrightarrow> index_insert m k h k' = m k'"
  by (simp add: index_insert_def split: option.split)

text \<open>The scenario of the claim: id \<open>a\<close>, then \<open>b\<close>, then the empty id.\<close>

lemma setAttribute_indexBy_a_b_empty:
  assumes e: "elements s h = Some e"
    and old: "id_of e \<noteq> [] \<longrightarrow> indexedElements s (id_of e) \<noteq> None"
  shows "\<exists>s1 s2 s3.
           setAttribute_indexBy s h ''a'' = Done s1 \<and> hasElement s1 ''a''
           \<and> setAttribute_indexBy s1 h ''b'' = Done s2
           \<and> \<not> hasElement s2 ''a'' \<and> hasElement s2 ''b''
           \<and> setAttribute_indexBy s2 h [] = Done s3 \<and> \<not> hasElement s3 ''b''"
proof -
  from setAttribute_indexBy_step [OF e old, of "''a''"]
  obtain s1 where r1: "setAttribute_indexBy s h ''a'' = Done s1"
    and e1: "elements s1 h = Some (e\<lparr>attr_indexBy := Some ''a''\<rparr>)"
    and i1: "indexedElements s1 =
               (if id_of e \<noteq> [] \<and> id_of e = ''a'' then indexedElements s
                else if id_of e \<noteq> [] \<and> ''a'' \<noteq> [] then
                  index_insert ((indexedElements s)(id_of e := None)) ''a''
                    (case indexedElements s (id_of e) of Some r \<Rightarrow> r | None \<Rightarrow> h)
                else if id_of e \<noteq> [] then (indexedElements s)(id_of e := None)
                else if ''a'' \<noteq> [] then index_insert (indexedElements s) ''a'' h
                else indexedElements s)"
    by blast
  have a1: "indexedElements s1 ''a'' \<noteq> None"
    using old unfolding i1 by (auto simp: index_insert_present_ex)
  have id1: "id_of (e\<lparr>attr_indexBy := Some ''a''\<rparr>) = ''a''" by simp
  have old1: "id_of (e\<lparr>attr_indexBy := Some ''a''\<rparr>) \<noteq> []
              \<longrightarrow> indexedElements s1 (id_of (e\<lparr>attr_indexBy := Some ''a''\<rparr>)) \<noteq> None"
    using a1 by simp
  from setAttribute_indexBy_step [OF e1 old1, of "''b''"]
  obtain s2 where r2: "setAttribute_indexBy s1 h ''b'' = Done s2"
    and e2: "elements s2 h = Some (e\<lparr>attr_indexBy := Some ''a'', attr_indexBy := Some ''b''\<rparr>)"
    and i2: "indexedElements s2 =
               index_insert ((indexedElements s1)(''a'' := None)) ''b''
                 (case indexedElements s1 ''a'' of Some r \<Rightarrow> r | None \<Rightarrow> h)"
    by (auto simp: id1)
  have a2: "indexedElements s2 ''a'' = None"
    unfolding i2 by (simp add: index_insert_other)
  have b2: "indexedElements s2 ''b'' \<noteq> None"
    unfolding i2 by (rule index_insert_present)
  have id2: "id_of (e\<lparr>attr_indexBy := Some ''a'', attr_indexBy := Some ''b''\<rparr>) = ''b''" by simp
  have old2: "id_of (e\<lparr>attr_indexBy := Some ''a'', attr_indexBy := Some ''b''\<rparr>) \<noteq> []
              \<longrightarrow> indexedElements s2
                    (id_of (e\<lparr>attr_indexBy := Some ''a'', attr_indexBy := Some ''b''\<rparr>)) \<noteq> None"
    using b2 by simp
  from setAttribute_indexBy_step [OF e2 old2, of "[]"]
  obtain s3 where r3: "setAttribute_indexBy s2 h [] = Done s3"
    and i3: "indexedElements s3 = (indexedElements s2)(''b'' := None)"
    by (auto simp: id2)
  have b3: "indexedElements s3 ''b'' = None"
    unfolding i3 by simp
  from r1 a1 r2 a2 b2 r3 b3 show ?thesis
    unfolding hasElement_def by blast
qed

text \<open>Equal old and new ids, and empty to empty: the index is left as it is.\<close>

lemma setAttribute_indexBy_noop:
  assumes e: "elements s h = Some e" and same: "id_of e = newKey"
  shows "\<exists>s'. setAttribute_indexBy s h newKey = Done s' \<and> indexedElements s' = indexedElements s"
  using assms
  by (auto simp: setAttribute_indexBy_def updateIndexBy_def upd_def id_of_def Let_def
           split: option.splits)

lemma index_exact_two_fresh: "index_exact two_fresh"
  by (auto simp: index_exact_def two_fresh_def new_Element_def split: if_splits)

text \<open>
  Without collisions the index is maintained.  In a document whose index is consistent,
  for every element: setting the id \<open>a\<close>, then \<open>b\<close>, then the empty id gives the answers of
  \<^verbatim>\<open>hasElement\<close> of the five-case table; an assignment of the id the element already has,
  or of the empty id to an element without id, leaves the index unchanged; and an
  assignment of an id that is empty, equal to the old one, or not in the index keeps the
  index consistent, with the new id (when not empty) mapped to the element.
\<close>

lemma setAttribute_indexBy_maintains_index:
  assumes "index_exact s" and "elements s h = Some e"
  shows "(\<exists>s1 s2 s3.
            setAttribute_indexBy s h ''a'' = Done s1 \<and> hasElement s1 ''a''
            \<and> setAttribute_indexBy s1 h ''b'' = Done s2
            \<and> \<not> hasElement s2 ''a'' \<and> hasElement s2 ''b''
            \<and> setAttribute_indexBy s2 h [] = Done s3 \<and> \<not> hasElement s3 ''b'')
       \<and> (id_of e = newKey \<longrightarrow>
            (\<exists>s'. setAttribute_indexBy s h newKey = Done s'
                  \<and> indexedElements s' = indexedElements s))
       \<and> (newKey = [] \<or> id_of e = newKey \<or> indexedElements s newKey = None \<longrightarrow>
            (\<exists>s'. setAttribute_indexBy s h newKey = Done s' \<and> index_exact s'
                  \<and> (newKey \<noteq> [] \<longrightarrow> indexedElements s' newKey = Some h)))"
proof (intro conjI impI)
  have old: "id_of e \<noteq> [] \<longrightarrow> indexedElements s (id_of e) \<noteq> None"
    using index_exact_old_key [OF assms] by simp
  show "\<exists>s1 s2 s3.
            setAttribute_indexBy s h ''a'' = Done s1 \<and> hasElement s1 ''a''
            \<and> setAttribute_indexBy s1 h ''b'' = Done s2
            \<and> \<not> hasElement s2 ''a'' \<and> hasElement s2 ''b''
            \<and> setAttribute_indexBy s2 h [] = Done s3 \<and> \<not> hasElement s3 ''b''"
    by (rule setAttribute_indexBy_a_b_empty [OF assms(2) old])
next
  assume "id_of e = newKey"
  then show "\<exists>s'. setAttribute_indexBy s h newKey = Done s'
                  \<and> indexedElements s' = indexedElements s"
    by (rule setAttribute_indexBy_noop [OF assms(2)])
next
  assume free: "newKey = [] \<or> id_of e = newKey \<or> indexedElements s newKey = None"
  from setAttribute_indexBy_exact [OF assms free]
  obtain s' where r: "setAttribute_indexBy s h newKey = Done s'" and ex': "index_exact s'"
    and el': "elements s' = (elements s)(h \<mapsto> e\<lparr>attr_indexBy := Some newKey\<rparr>)"
    by blast
  have "newKey \<noteq> [] \<longrightarrow> indexedElements s' newKey = Some h"
    using ex' el' unfolding index_exact_def by auto
  with r ex' show "\<exists>s'. setAttribute_indexBy s h newKey = Done s' \<and> index_exact s'
                  \<and> (newKey \<noteq> [] \<longrightarrow> indexedElements s' newKey = Some h)"
    by blast
qed

lemma setAttribute_indexBy_maintains_index_example:
  "index_exact two_fresh \<and> elements two_fresh 1 = Some (new_Element DIV)
   \<and> (\<exists>s'. setAttribute_indexBy two_fresh 1 ''c'' = Done s' \<and> index_exact s'
          \<and> indexedElements s' ''c'' = Some 1)
   \<and> (\<exists>s1 s2 s3.
          setAttribute_indexBy two_fresh 1 ''a'' = Done s1 \<and> hasElement s1 ''a''
          \<and> setAttribute_indexBy s1 1 ''b'' = Done s2
          \<and> \<not> hasElement s2 ''a'' \<and> hasElement s2 ''b''
          \<and> setAttribute_indexBy s2 1 [] = Done s3 \<and> \<not> hasElement s3 ''b'')"
proof -
  have h1: "index_exact two_fresh" by (rule index_exact_two_fresh)
  have h2: "elements two_fresh 1 = Some (new_Element DIV)" by (simp add: two_fresh_def)
  have h3: "indexedElements two_fresh ''c'' = None" by (simp add: two_fresh_def)
  from setAttribute_indexBy_maintains_index [OF h1 h2, of "''c''"] h1 h2 h3
  show ?thesis by simp
qed

text \<open>
  C4.  The claim is that at any instant a non-empty id has exactly one index entry,
  mapping it to the element that carries it.  The code breaks this when two elements are
  given the same id.  The second assignment inserts nothing, so the element \<open>2\<close> carries
  the id \<open>a\<close> while the only entry for \<open>a\<close> maps to the element \<open>1\<close>.  Renaming \<open>2\<close> to \<open>z\<close>
  then moves the entry of the element \<open>1\<close>: the index maps \<open>z\<close> to \<open>1\<close>, which still carries
  the id \<open>a\<close>, and \<^verbatim>\<open>hasElement\<close> of \<open>a\<close> is false.  And when \<open>1\<close> clears its id first, renaming
  \<open>2\<close> extracts a key that is not in the index and reads the key of an empty node handle,
  which is undefined behaviour.
\<close>

theorem id_collision_corrupts_index:
  "setAttribute_indexBy_seq two_fresh [(1, ''a''), (2, ''a'')] =
     Done \<lparr> elements = [1 \<mapsto> (new_Element DIV)\<lparr>attr_indexBy := Some ''a''\<rparr>,
                           2 \<mapsto> (new_Element DIV)\<lparr>attr_indexBy := Some ''a''\<rparr>],
            indexedElements = [''a'' \<mapsto> 1], next_handle = 3, eventTypeMap = None \<rparr>
   \<and> setAttribute_indexBy_seq two_fresh [(1, ''a''), (2, ''a''), (2, ''z'')] =
     Done \<lparr> elements = [1 \<mapsto> (new_Element DIV)\<lparr>attr_indexBy := Some ''a''\<rparr>,
                           2 \<mapsto> (new_Element DIV)\<lparr>attr_indexBy := Some ''z''\<rparr>],
            indexedElements = [''z'' \<mapsto> 1], next_handle = 3, eventTypeMap = None \<rparr>
   \<and> setAttribute_indexBy_seq two_fresh [(1, ''a''), (2, ''a''), (1, []), (2, ''q'')] = Undefined"
  by (simp add: two_fresh_def setAttribute_indexBy_def updateIndexBy_def index_insert_def
        heap_defs Let_def)
section \<open>Child lists under the tree operations\<close>

subsection \<open>Fields after an update\<close>

lemma live_upd [simp]: "live (upd s h f) c = live s c"
  by (auto simp: live_def upd_def split: option.splits)

lemma live_opt_upd [simp]: "live_opt (upd s h f) p = live_opt s p"
  by (cases p) (simp_all add: live_opt_def)

lemma ptr_upd:
  "ptr (upd s h f) c g = (if c = h then ptr s h (\<lambda>e. g (f e)) else ptr s c g)"
  by (auto simp: ptr_def upd_def split: option.splits)

lemma ptr_const: "ptr s h (\<lambda>e. v) = (if live s h then v else None)"
  by (auto simp: ptr_def live_def split: option.splits)

lemma live_erase_index_of [simp]: "live (erase_index_of s h) c = live s c"
  by (auto simp: live_def erase_index_of_def split: option.splits result.splits)

lemma ptr_erase_index_of [simp]: "ptr (erase_index_of s h) c g = ptr s c g"
  by (auto simp: ptr_def erase_index_of_def split: option.splits result.splits)

lemma live_erase_element [simp]: "live (erase_element s h) c = (c \<noteq> h \<and> live s c)"
  by (auto simp: live_def erase_element_def)

lemma ptr_erase_element [simp]:
  "ptr (erase_element s h) c g = (if c = h then None else ptr s c g)"
  by (auto simp: ptr_def erase_element_def)

lemma ptr_dead: "\<not> live s c \<Longrightarrow> ptr s c g = None"
  by (simp add: ptr_def live_def)

subsection \<open>The effect of each operation on the links\<close>

lemma appendChild_effect:
  assumes n: "live s n" and x: "live s x" and xn: "x \<noteq> n"
    and fo: "ptr s n m_firstChild = fo" and lo: "ptr s n m_lastChild = lo"
    and ll: "live_opt s lo" and lx: "lo \<noteq> Some x" and ln: "lo \<noteq> Some n"
  shows "\<exists>s'. appendChild s n x = Done s'
      \<and> (\<forall>c. live s' c = live s c)
      \<and> (\<forall>c. ptr s' c m_parent = (if c = x then Some n else ptr s c m_parent))
      \<and> (\<forall>c. ptr s' c m_previousSibling = (if c = x then lo else ptr s c m_previousSibling))
      \<and> (\<forall>c. ptr s' c m_nextSibling = (if Some c = lo then Some x else ptr s c m_nextSibling))
      \<and> (\<forall>c. ptr s' c m_firstChild
               = (if c = n \<and> fo = None then Some x else ptr s c m_firstChild))
      \<and> (\<forall>c. ptr s' c m_lastChild = (if c = n then Some x else ptr s c m_lastChild))"
proof (cases lo)
  case None
  show ?thesis
  proof (cases fo)
    case fn: None
    with None n x xn fo lo show ?thesis
      by (simp add: appendChild_def Let_def ptr_upd ptr_const live_opt_def)
  next
    case (Some f)
    with None n x xn fo lo show ?thesis
      by (simp add: appendChild_def Let_def ptr_upd ptr_const live_opt_def)
  qed
next
  case (Some l)
  with ll lx ln have l: "live s l" "l \<noteq> x" "l \<noteq> n" by (auto simp: live_opt_def)
  show ?thesis
  proof (cases fo)
    case None
    with Some l n x xn fo lo show ?thesis
      by (simp add: appendChild_def Let_def ptr_upd ptr_const live_opt_def)
  next
    case sf: (Some f)
    with Some l n x xn fo lo show ?thesis
      by (simp add: appendChild_def Let_def ptr_upd ptr_const live_opt_def)
  qed
qed

lemma insertBefore_effect:
  assumes n: "live s n" and x: "live s x" and e: "live s e"
    and xn: "x \<noteq> n" and xe: "x \<noteq> e" and en: "e \<noteq> n"
    and fo: "ptr s n m_firstChild = fo" and po: "ptr s e m_previousSibling = po"
    and pl: "live_opt s po" and px: "po \<noteq> Some x" and pe: "po \<noteq> Some e"
    and pn: "po \<noteq> Some n"
  shows "\<exists>s'. insertBefore s n x e = Done s'
      \<and> (\<forall>c. live s' c = live s c)
      \<and> (\<forall>c. ptr s' c m_parent = (if c = x then ptr s e m_parent else ptr s c m_parent))
      \<and> (\<forall>c. ptr s' c m_previousSibling
               = (if c = x then po else if c = e then Some x else ptr s c m_previousSibling))
      \<and> (\<forall>c. ptr s' c m_nextSibling
               = (if c = x then Some e else if Some c = po then Some x
                  else ptr s c m_nextSibling))
      \<and> (\<forall>c. ptr s' c m_firstChild
               = (if c = n \<and> fo = Some e then Some x else ptr s c m_firstChild))
      \<and> (\<forall>c. ptr s' c m_lastChild = ptr s c m_lastChild)"
proof (cases po)
  case None
  show ?thesis
  proof (cases "fo = Some e")
    case True
    with None n x e xn xe en fo po show ?thesis
      by (simp add: insertBefore_def Let_def ptr_upd ptr_const live_opt_def)
  next
    case False
    with None n x e xn xe en fo po show ?thesis
      by (simp add: insertBefore_def Let_def ptr_upd ptr_const live_opt_def)
  qed
next
  case (Some p)
  with pl px pe pn have p: "live s p" "p \<noteq> x" "p \<noteq> e" "p \<noteq> n"
    by (auto simp: live_opt_def)
  show ?thesis
  proof (cases "fo = Some e")
    case True
    with Some p n x e xn xe en fo po show ?thesis
      by (simp add: insertBefore_def Let_def ptr_upd ptr_const live_opt_def)
  next
    case False
    with Some p n x e xn xe en fo po show ?thesis
      by (simp add: insertBefore_def Let_def ptr_upd ptr_const live_opt_def)
  qed
qed

lemma removeChild_unlink_effect:
  assumes n: "live s n" and c: "live s c" and cn: "c \<noteq> n"
    and fo: "ptr s n m_firstChild = fo" and lo: "ptr s n m_lastChild = lo"
    and po: "ptr s c m_previousSibling = po" and no: "ptr s c m_nextSibling = no"
    and pl: "live_opt s po" and nl: "live_opt s no"
    and pc: "po \<noteq> Some c" and nc: "no \<noteq> Some c"
    and pn: "po \<noteq> Some n" and nn: "no \<noteq> Some n"
  shows "\<exists>s'. removeChild_unlink s n c = Done s'
      \<and> (\<forall>d. live s' d = (d \<noteq> c \<and> live s d))
      \<and> (\<forall>d. d \<noteq> c \<longrightarrow> ptr s' d m_parent = ptr s d m_parent)
      \<and> (\<forall>d. d \<noteq> c \<longrightarrow> ptr s' d m_previousSibling
               = (if Some d = no then po else ptr s d m_previousSibling))
      \<and> (\<forall>d. d \<noteq> c \<longrightarrow> ptr s' d m_nextSibling
               = (if Some d = po then no else ptr s d m_nextSibling))
      \<and> (\<forall>d. d \<noteq> c \<longrightarrow> ptr s' d m_firstChild
               = (if d = n \<and> fo = Some c then no else ptr s d m_firstChild))
      \<and> (\<forall>d. d \<noteq> c \<longrightarrow> ptr s' d m_lastChild
               = (if d = n \<and> lo = Some c then po else ptr s d m_lastChild))"
proof -
  have pq: "po = None \<or> (\<exists>p. po = Some p \<and> live s p \<and> p \<noteq> c \<and> p \<noteq> n)"
    using pl pc pn by (cases po) (auto simp: live_opt_def)
  have nq: "no = None \<or> (\<exists>q. no = Some q \<and> live s q \<and> q \<noteq> c \<and> q \<noteq> n)"
    using nl nc nn by (cases no) (auto simp: live_opt_def)
  note defs = removeChild_unlink_def Let_def ptr_upd ptr_const live_opt_def
  have step: ?thesis
    if hp: "po = None \<or> (live s p \<and> p \<noteq> c \<and> p \<noteq> n \<and> po = Some p)"
      and hq: "no = None \<or> (live s q \<and> q \<noteq> c \<and> q \<noteq> n \<and> no = Some q)" for p q
  proof (cases "fo = Some c"; cases "lo = Some c")
    show ?thesis if "fo = Some c" "lo = Some c"
      using that hp hq n c cn fo lo po no
      by (elim disjE conjE) (simp_all add: defs)
    show ?thesis if "fo = Some c" "lo \<noteq> Some c"
      using that hp hq n c cn fo lo po no
      by (elim disjE conjE) (simp_all add: defs)
    show ?thesis if "fo \<noteq> Some c" "lo = Some c"
      using that hp hq n c cn fo lo po no
      by (elim disjE conjE) (simp_all add: defs)
    show ?thesis if "fo \<noteq> Some c" "lo \<noteq> Some c"
      using that hp hq n c cn fo lo po no
      by (elim disjE conjE) (simp_all add: defs)
  qed
  from pq obtain p where p: "po = None \<or> (live s p \<and> p \<noteq> c \<and> p \<noteq> n \<and> po = Some p)"
    by auto
  from nq obtain q where q: "no = None \<or> (live s q \<and> q \<noteq> c \<and> q \<noteq> n \<and> no = Some q)"
    by auto
  from step [OF p q] show ?thesis .
qed

subsection \<open>Doubly linked segments\<close>

lemma head_opt_simps [simp]:
  "head_opt [] = None" "head_opt (x # xs) = Some x"
  by (simp_all add: head_opt_def)

lemma last_opt_simps [simp]:
  "last_opt [] = None" "last_opt (xs @ [x]) = Some x"
  by (simp_all add: last_opt_def)

lemma last_opt_Cons: "last_opt (x # xs) = (if xs = [] then Some x else last_opt xs)"
  by (simp add: last_opt_def)

lemma head_opt_append: "head_opt (xs @ ys) = (if xs = [] then head_opt ys else head_opt xs)"
  by (cases xs) simp_all

lemma last_opt_append: "last_opt (xs @ ys) = (if ys = [] then last_opt xs else last_opt ys)"
  by (simp add: last_opt_def)

lemma head_opt_None [simp]: "head_opt xs = None \<longleftrightarrow> xs = []"
  by (cases xs) simp_all

lemma last_opt_None [simp]: "last_opt xs = None \<longleftrightarrow> xs = []"
  by (simp add: last_opt_def)

lemma head_opt_mem: "head_opt xs = Some x \<Longrightarrow> x \<in> set xs"
  by (cases xs) auto

lemma last_opt_mem: "last_opt xs = Some x \<Longrightarrow> x \<in> set xs"
  by (auto simp: last_opt_def split: if_splits)

lemma dlseg_append:
  "dlseg s n p (as @ bs) q \<longleftrightarrow>
     dlseg s n p as (if bs = [] then q else head_opt bs)
     \<and> dlseg s n (if as = [] then p else last_opt as) bs q"
proof (induction as arbitrary: p)
  case Nil
  show ?case by simp
next
  case (Cons a as)
  show ?case
    unfolding append_Cons dlseg.simps Cons.IH
    by (auto simp: head_opt_append last_opt_Cons)
qed

lemma dlseg_live: "dlseg s n p cs q \<Longrightarrow> c \<in> set cs \<Longrightarrow> live s c"
  by (induction cs arbitrary: p) auto

lemma dlseg_parent: "dlseg s n p cs q \<Longrightarrow> c \<in> set cs \<Longrightarrow> ptr s c m_parent = Some n"
  by (induction cs arbitrary: p) auto

text \<open>
  A segment carried to another state: liveness and parents are kept, and the sibling
  pointers are kept except for the previous sibling of the first element and the next
  sibling of the last, which may be redirected.
\<close>

lemma dlseg_relink:
  assumes "dlseg s n p cs q" and "distinct cs"
    and "\<And>c. c \<in> set cs \<Longrightarrow>
           live s' c \<and> ptr s' c m_parent = Some n
           \<and> ptr s' c m_previousSibling
               = (if Some c = head_opt cs then p' else ptr s c m_previousSibling)
           \<and> ptr s' c m_nextSibling
               = (if Some c = last_opt cs then q' else ptr s c m_nextSibling)"
  shows "dlseg s' n p' cs q'"
  using assms
proof (induction cs arbitrary: p p')
  case Nil
  show ?case by simp
next
  case (Cons c cs)
  from Cons.prems(1) have seg: "dlseg s n (Some c) cs q"
    and nc: "ptr s c m_nextSibling = (if cs = [] then q else head_opt cs)"
    by simp_all
  from Cons.prems(2) have dist: "distinct cs" and cnotin: "c \<notin> set cs" by simp_all
  have hd: "live s' c \<and> ptr s' c m_parent = Some n \<and> ptr s' c m_previousSibling = p'
            \<and> ptr s' c m_nextSibling = (if cs = [] then q' else head_opt cs)"
  proof -
    have "last_opt cs \<noteq> Some c" using cnotin last_opt_mem [of cs c] by auto
    then have "Some c = last_opt (c # cs) \<longleftrightarrow> cs = []"
      by (auto simp: last_opt_Cons)
    with Cons.prems(3) [of c] nc show ?thesis by auto
  qed
  have tl: "dlseg s' n (Some c) cs q'"
  proof (rule Cons.IH [OF seg dist])
    fix d assume d: "d \<in> set cs"
    with cnotin have dc: "d \<noteq> c" by auto
    have pd: "Some d = head_opt cs \<Longrightarrow> ptr s d m_previousSibling = Some c"
      using seg by (cases cs) auto
    have ld: "Some d = last_opt (c # cs) \<longleftrightarrow> Some d = last_opt cs"
      using d by (auto simp: last_opt_Cons)
    from Cons.prems(3) [of d] d dc pd ld
    show "live s' d \<and> ptr s' d m_parent = Some n
           \<and> ptr s' d m_previousSibling
               = (if Some d = head_opt cs then Some c else ptr s d m_previousSibling)
           \<and> ptr s' d m_nextSibling
               = (if Some d = last_opt cs then q' else ptr s d m_nextSibling)"
      by auto
  qed
  from hd tl show ?case by simp
qed

lemma dlseg_frame:
  assumes "dlseg s n p cs q"
    and "\<And>c. c \<in> set cs \<Longrightarrow>
           live s' c \<and> ptr s' c m_parent = ptr s c m_parent
           \<and> ptr s' c m_previousSibling = ptr s c m_previousSibling
           \<and> ptr s' c m_nextSibling = ptr s c m_nextSibling"
  shows "dlseg s' n p cs q"
  using assms by (induction cs arbitrary: p) auto

subsection \<open>Walks\<close>

lemma dlseg_walk_next: "dlseg s n p cs None \<Longrightarrow> walk_next s (head_opt cs) cs"
  by (induction cs arbitrary: p) auto

lemma dlseg_walk_prev: "dlseg s n None cs q \<Longrightarrow> walk_prev s (last_opt cs) (rev cs)"
proof (induction cs arbitrary: q rule: rev_induct)
  case Nil
  show ?case by simp
next
  case (snoc x xs)
  from snoc.prems have a: "dlseg s n None xs (Some x)"
    and b: "dlseg s n (if xs = [] then None else last_opt xs) [x] q"
    by (simp_all add: dlseg_append)
  from b have "live s x" and "ptr s x m_previousSibling = last_opt xs"
    by (auto split: if_splits)
  with snoc.IH [OF a] show ?case by simp
qed

lemma walk_next_unique: "walk_next s p cs \<Longrightarrow> walk_next s p cs' \<Longrightarrow> cs = cs'"
proof (induction cs arbitrary: p cs')
  case Nil
  then show ?case by (cases cs') auto
next
  case (Cons c cs)
  then show ?case by (cases cs') auto
qed

lemma child_list_unique: "child_list s n cs \<Longrightarrow> child_list s n cs' \<Longrightarrow> cs = cs'"
  unfolding child_list_def
  by (metis dlseg_walk_next walk_next_unique)

lemma child_list_consistent:
  assumes "child_list s n cs"
  shows "children_consistent s n cs"
proof -
  from assms have f: "ptr s n m_firstChild = head_opt cs" and l: "ptr s n m_lastChild = last_opt cs"
    and seg: "dlseg s n None cs None"
    by (simp_all add: child_list_def)
  have "list_all (\<lambda>c. ptr s c m_parent = Some n) cs"
    using dlseg_parent [OF seg] by (simp add: list_all_iff)
  with dlseg_walk_next [OF seg] dlseg_walk_prev [OF seg] f l show ?thesis
    by (simp add: children_consistent_def)
qed

subsection \<open>The invariant when one child list changes\<close>

lemma tree_inv_parent:
  assumes "tree_inv s" "live s c" "ptr s c m_parent = Some p"
  shows "p \<noteq> c" "live s p" "\<exists>cs. child_list s p cs \<and> c \<in> set cs"
  using assms unfolding tree_inv_def by blast+

lemma tree_inv_children: "tree_inv s \<Longrightarrow> live s n \<Longrightarrow> \<exists>cs. child_list s n cs"
  unfolding tree_inv_def by blast

lemma tree_inv_detached:
  assumes "tree_inv s" "live s c" "ptr s c m_parent = None"
  shows "ptr s c m_nextSibling = None" "ptr s c m_previousSibling = None"
  using assms unfolding tree_inv_def by blast+

lemma child_list_member:
  assumes "child_list s n cs" "c \<in> set cs"
  shows "live s c" "ptr s c m_parent = Some n"
  using assms dlseg_live dlseg_parent unfolding child_list_def by blast+

lemma tree_inv_change:
  assumes inv: "tree_inv s"
    and n: "live s n" and cl: "child_list s n cs" and cl': "child_list s' n cs'"
    and lv: "\<And>c. live s' c \<longleftrightarrow> live s c \<and> (c \<in> set cs \<longrightarrow> c \<in> set cs')"
    and leaf: "\<And>c. c \<in> set cs \<Longrightarrow> c \<notin> set cs' \<Longrightarrow> ptr s c m_firstChild = None"
    and ins: "\<And>c. c \<in> set cs' \<Longrightarrow> c \<notin> set cs \<Longrightarrow> ptr s c m_parent = None \<and> c \<noteq> n"
    and frame: "\<And>c. live s c \<Longrightarrow> c \<notin> set cs \<Longrightarrow> c \<notin> set cs' \<Longrightarrow>
                  ptr s' c m_parent = ptr s c m_parent
                  \<and> ptr s' c m_previousSibling = ptr s c m_previousSibling
                  \<and> ptr s' c m_nextSibling = ptr s c m_nextSibling"
    and fl: "\<And>m. live s' m \<Longrightarrow> m \<noteq> n \<Longrightarrow>
                  ptr s' m m_firstChild = ptr s m m_firstChild
                  \<and> ptr s' m m_lastChild = ptr s m m_lastChild"
  shows "tree_inv s'"
proof -
  have n_notin: "n \<notin> set cs"
    using child_list_member [OF cl, of n] tree_inv_parent(1) [OF inv n, of n] by auto
  have n_notin': "n \<notin> set cs'"
    using ins [of n] n_notin by auto
  have n_live': "live s' n" using lv n n_notin by simp
  have other: "child_list s' m cm" if m: "live s' m" "m \<noteq> n" and cm: "child_list s m cm" for m cm
  proof -
    have mem: "c \<notin> set cs \<and> c \<notin> set cs' \<and> live s c" if "c \<in> set cm" for c
    proof -
      from child_list_member [OF cm that] have lc: "live s c" and pc: "ptr s c m_parent = Some m"
        by simp_all
      have "c \<notin> set cs" using child_list_member(2) [OF cl, of c] pc m(2) by auto
      moreover from this have "c \<notin> set cs'" using ins [of c] pc by auto
      ultimately show ?thesis using lc by simp
    qed
    from cm have seg: "dlseg s m None cm None" and d: "distinct cm"
      and f: "ptr s m m_firstChild = head_opt cm" and l: "ptr s m m_lastChild = last_opt cm"
      by (simp_all add: child_list_def)
    have "dlseg s' m None cm None"
    proof (rule dlseg_frame [OF seg])
      fix c assume "c \<in> set cm"
      from mem [OF this] frame [of c] lv [of c]
      show "live s' c \<and> ptr s' c m_parent = ptr s c m_parent
           \<and> ptr s' c m_previousSibling = ptr s c m_previousSibling
           \<and> ptr s' c m_nextSibling = ptr s c m_nextSibling"
        by simp
    qed
    with d f l fl [OF m] show ?thesis by (simp add: child_list_def)
  qed
  have c1: "\<exists>cm. child_list s' m cm" if m: "live s' m" for m
  proof (cases "m = n")
    case True
    with cl' show ?thesis by blast
  next
    case False
    from m lv have "live s m" by simp
    from tree_inv_children [OF inv this] obtain cm where "child_list s m cm" by blast
    from other [OF m False this] show ?thesis by blast
  qed
  have c2: "p \<noteq> c \<and> live s' p \<and> (\<exists>cm. child_list s' p cm \<and> c \<in> set cm)"
    if c: "live s' c" and pc: "ptr s' c m_parent = Some p" for c p
  proof (cases "c \<in> set cs'")
    case True
    from child_list_member(2) [OF cl' True] pc have "p = n" by simp
    with True n_notin' n_live' cl' show ?thesis by auto
  next
    case False
    from c lv have lc: "live s c" and "c \<in> set cs \<longrightarrow> c \<in> set cs'" by simp_all
    with False have nc: "c \<notin> set cs" by simp
    from frame [OF lc nc False] pc have pc0: "ptr s c m_parent = Some p" by simp
    from tree_inv_parent [OF inv lc pc0] obtain cm where
      pne: "p \<noteq> c" and lp: "live s p" and cm: "child_list s p cm" and ccm: "c \<in> set cm"
      by blast
    have pn: "p \<noteq> n"
    proof
      assume "p = n"
      with cm cl have "cm = cs" by (simp add: child_list_unique)
      with ccm nc show False by simp
    qed
    have lp': "live s' p"
    proof -
      have "p \<in> set cs'" if "p \<in> set cs"
      proof (rule ccontr)
        assume "p \<notin> set cs'"
        from cm have "head_opt cm = ptr s p m_firstChild" by (simp add: child_list_def)
        with leaf [OF that \<open>p \<notin> set cs'\<close>] have "cm = []" by simp
        with ccm show False by simp
      qed
      with lp lv show ?thesis by simp
    qed
    from other [OF lp' pn cm] pne lp' ccm show ?thesis by blast
  qed
  have c3: "ptr s' c m_nextSibling = None \<and> ptr s' c m_previousSibling = None"
    if c: "live s' c" and pc: "ptr s' c m_parent = None" for c
  proof -
    have nc': "c \<notin> set cs'" using child_list_member(2) [OF cl', of c] pc by auto
    from c lv have lc: "live s c" and "c \<in> set cs \<longrightarrow> c \<in> set cs'" by simp_all
    with nc' have nc: "c \<notin> set cs" by auto
    from frame [OF lc nc nc'] pc tree_inv_detached [OF inv lc] show ?thesis by simp
  qed
  from c1 c2 c3 show ?thesis unfolding tree_inv_def by blast
qed

subsection \<open>Each operation keeps the invariant\<close>

lemma dlseg_head_prev: "dlseg s n p cs q \<Longrightarrow> head_opt cs = Some c \<Longrightarrow> ptr s c m_previousSibling = p"
  by (cases cs) auto

lemma dlseg_last_next: "dlseg s n p cs q \<Longrightarrow> last_opt cs = Some c \<Longrightarrow> ptr s c m_nextSibling = q"
proof (induction cs arbitrary: p)
  case Nil
  then show ?case by simp
next
  case (Cons a cs)
  then show ?case by (cases "cs = []") (auto simp: last_opt_Cons)
qed

lemma dlseg_retarget:
  assumes seg: "dlseg s n p cs q" and d: "distinct cs"
    and h: "\<And>c. c \<in> set cs \<Longrightarrow>
           live s' c \<and> ptr s' c m_parent = Some n
           \<and> ptr s' c m_previousSibling = ptr s c m_previousSibling
           \<and> ptr s' c m_nextSibling
               = (if last_opt cs = Some c then q' else ptr s c m_nextSibling)"
  shows "dlseg s' n p cs q'"
proof (rule dlseg_relink [OF seg d])
  fix c assume c: "c \<in> set cs"
  have "Some c = head_opt cs \<Longrightarrow> ptr s c m_previousSibling = p"
    using dlseg_head_prev [OF seg, of c] by simp
  with h [OF c]
  show "live s' c \<and> ptr s' c m_parent = Some n
           \<and> ptr s' c m_previousSibling
               = (if Some c = head_opt cs then p else ptr s c m_previousSibling)
           \<and> ptr s' c m_nextSibling
               = (if Some c = last_opt cs then q' else ptr s c m_nextSibling)"
    by auto
qed

lemma dlseg_resource:
  assumes seg: "dlseg s n p cs q" and d: "distinct cs"
    and h: "\<And>c. c \<in> set cs \<Longrightarrow>
           live s' c \<and> ptr s' c m_parent = Some n
           \<and> ptr s' c m_previousSibling
               = (if head_opt cs = Some c then p' else ptr s c m_previousSibling)
           \<and> ptr s' c m_nextSibling = ptr s c m_nextSibling"
  shows "dlseg s' n p' cs q"
proof (rule dlseg_relink [OF seg d])
  fix c assume c: "c \<in> set cs"
  have "Some c = last_opt cs \<Longrightarrow> ptr s c m_nextSibling = q"
    using dlseg_last_next [OF seg, of c] by simp
  with h [OF c]
  show "live s' c \<and> ptr s' c m_parent = Some n
           \<and> ptr s' c m_previousSibling
               = (if Some c = head_opt cs then p' else ptr s c m_previousSibling)
           \<and> ptr s' c m_nextSibling
               = (if Some c = last_opt cs then q else ptr s c m_nextSibling)"
    by auto
qed

lemma live_opt_last_opt: "(\<And>c. c \<in> set cs \<Longrightarrow> live s c) \<Longrightarrow> live_opt s (last_opt cs)"
  by (cases "cs = []") (auto simp: live_opt_def last_opt_def)

lemma live_opt_head_opt: "(\<And>c. c \<in> set cs \<Longrightarrow> live s c) \<Longrightarrow> live_opt s (head_opt cs)"
  by (cases cs) (auto simp: live_opt_def)

lemma tree_inv_not_own_child:
  assumes "tree_inv s" "live s n" "child_list s n cs"
  shows "n \<notin> set cs"
  using child_list_member [OF assms(3), of n] tree_inv_parent(1) [OF assms(1,2), of n] by auto

lemma appendChild_inv:
  assumes inv: "tree_inv s" and n: "live s n" and x: "live s x" and xn: "x \<noteq> n"
    and px: "ptr s x m_parent = None"
  shows "\<exists>s'. appendChild s n x = Done s' \<and> tree_inv s'"
proof -
  from tree_inv_children [OF inv n] obtain cs where cl: "child_list s n cs" by blast
  then have d: "distinct cs" and f: "ptr s n m_firstChild = head_opt cs"
    and l: "ptr s n m_lastChild = last_opt cs" and seg: "dlseg s n None cs None"
    by (simp_all add: child_list_def)
  have xcs: "x \<notin> set cs" using child_list_member(2) [OF cl, of x] px by auto
  have ncs: "n \<notin> set cs" by (rule tree_inv_not_own_child [OF inv n cl])
  have ll: "live_opt s (last_opt cs)"
    by (rule live_opt_last_opt) (rule child_list_member(1) [OF cl])
  have lx: "last_opt cs \<noteq> Some x" using xcs last_opt_mem [of cs x] by auto
  have ln: "last_opt cs \<noteq> Some n" using ncs last_opt_mem [of cs n] by auto
  from appendChild_effect [OF n x xn f l ll lx ln]
  obtain s' where r: "appendChild s n x = Done s'"
    and e1: "\<And>c. live s' c = live s c"
    and e2: "\<And>c. ptr s' c m_parent = (if c = x then Some n else ptr s c m_parent)"
    and e3: "\<And>c. ptr s' c m_previousSibling
                 = (if c = x then last_opt cs else ptr s c m_previousSibling)"
    and e4: "\<And>c. ptr s' c m_nextSibling
                 = (if Some c = last_opt cs then Some x else ptr s c m_nextSibling)"
    and e5: "\<And>c. ptr s' c m_firstChild
                 = (if c = n \<and> head_opt cs = None then Some x else ptr s c m_firstChild)"
    and e6: "\<And>c. ptr s' c m_lastChild = (if c = n then Some x else ptr s c m_lastChild)"
    by blast
  have seg1: "dlseg s' n None cs (Some x)"
  proof (rule dlseg_retarget [OF seg d])
    fix c assume c: "c \<in> set cs"
    with xcs have "c \<noteq> x" by auto
    with child_list_member [OF cl c] e1 [of c] e2 [of c] e3 [of c] e4 [of c]
    show "live s' c \<and> ptr s' c m_parent = Some n
           \<and> ptr s' c m_previousSibling = ptr s c m_previousSibling
           \<and> ptr s' c m_nextSibling
               = (if last_opt cs = Some c then Some x else ptr s c m_nextSibling)"
      by auto
  qed
  have nx: "ptr s' x m_nextSibling = None"
    using e4 [of x] lx tree_inv_detached(1) [OF inv x px] by auto
  have seg2: "dlseg s' n (if cs = [] then None else last_opt cs) [x] None"
    using e1 [of x] e2 [of x] e3 [of x] nx x by simp
  have cl': "child_list s' n (cs @ [x])"
    unfolding child_list_def dlseg_append
    using d xcs seg1 seg2 e5 [of n] e6 [of n] f by (simp add: head_opt_append)
  have "tree_inv s'"
  proof (rule tree_inv_change [OF inv n cl cl'])
    fix c show "live s' c \<longleftrightarrow> live s c \<and> (c \<in> set cs \<longrightarrow> c \<in> set (cs @ [x]))"
      by (simp add: e1)
  next
    fix c assume "c \<in> set cs" "c \<notin> set (cs @ [x])"
    then show "ptr s c m_firstChild = None" by simp
  next
    fix c assume "c \<in> set (cs @ [x])" "c \<notin> set cs"
    then show "ptr s c m_parent = None \<and> c \<noteq> n" using px xn by simp
  next
    fix c assume c: "live s c" "c \<notin> set cs" "c \<notin> set (cs @ [x])"
    then have "c \<noteq> x" "Some c \<noteq> last_opt cs" using last_opt_mem [of cs c] by auto
    then show "ptr s' c m_parent = ptr s c m_parent
                  \<and> ptr s' c m_previousSibling = ptr s c m_previousSibling
                  \<and> ptr s' c m_nextSibling = ptr s c m_nextSibling"
      by (simp add: e2 e3 e4)
  next
    fix m assume "live s' m" "m \<noteq> n"
    then show "ptr s' m m_firstChild = ptr s m m_firstChild
                  \<and> ptr s' m m_lastChild = ptr s m m_lastChild"
      by (simp add: e5 e6)
  qed
  with r show ?thesis by blast
qed

lemma child_list_split:
  assumes cl: "child_list s n cs" and c: "c \<in> set cs"
  obtains pre post where "cs = pre @ c # post"
    and "c \<notin> set pre" and "c \<notin> set post" and "distinct pre" and "distinct post"
    and "set pre \<inter> set post = {}"
    and "dlseg s n None pre (Some c)"
    and "dlseg s n (Some c) post None"
    and "ptr s c m_previousSibling = last_opt pre"
    and "ptr s c m_nextSibling = head_opt post"
    and "ptr s n m_firstChild = (if pre = [] then Some c else head_opt pre)"
    and "ptr s n m_lastChild = (if post = [] then Some c else last_opt post)"
proof -
  from split_list [OF c] obtain pre post where cs: "cs = pre @ c # post" by blast
  from cl have d: "distinct cs" and f: "ptr s n m_firstChild = head_opt cs"
    and l: "ptr s n m_lastChild = last_opt cs" and seg: "dlseg s n None cs None"
    by (simp_all add: child_list_def)
  from d cs have d': "c \<notin> set pre" "c \<notin> set post" "distinct pre" "distinct post"
    "set pre \<inter> set post = {}" by auto
  from seg [unfolded cs dlseg_append]
  have a: "dlseg s n None pre (Some c)"
    and b: "dlseg s n (if pre = [] then None else last_opt pre) (c # post) None"
    by simp_all
  from b have b1: "ptr s c m_previousSibling = last_opt pre"
    and b2: "ptr s c m_nextSibling = head_opt post"
    and b3: "dlseg s n (Some c) post None"
    by (auto split: if_splits)
  have f': "ptr s n m_firstChild = (if pre = [] then Some c else head_opt pre)"
    using f cs by (simp add: head_opt_append)
  have l': "ptr s n m_lastChild = (if post = [] then Some c else last_opt post)"
    using l cs by (simp add: last_opt_append last_opt_Cons)
  from that [OF cs d' a b3 b1 b2 f' l'] show thesis .
qed

lemma insertBefore_inv:
  assumes inv: "tree_inv s" and n: "live s n" and x: "live s x" and e: "live s e"
    and xn: "x \<noteq> n" and px: "ptr s x m_parent = None" and pe: "ptr s e m_parent = Some n"
  shows "\<exists>s'. insertBefore s n x e = Done s' \<and> tree_inv s'"
proof -
  from tree_inv_parent(3) [OF inv e pe] obtain cs where cl: "child_list s n cs"
    and ecs: "e \<in> set cs" by blast
  from child_list_split [OF cl ecs] obtain pre post where cs: "cs = pre @ e # post"
    and epre: "e \<notin> set pre" and epost: "e \<notin> set post"
    and dpre: "distinct pre" and dpost: "distinct post" and disj: "set pre \<inter> set post = {}"
    and segpre: "dlseg s n None pre (Some e)" and segpost: "dlseg s n (Some e) post None"
    and prev_e: "ptr s e m_previousSibling = last_opt pre"
    and next_e: "ptr s e m_nextSibling = head_opt post"
    and f: "ptr s n m_firstChild = (if pre = [] then Some e else head_opt pre)"
    and l: "ptr s n m_lastChild = (if post = [] then Some e else last_opt post)" .
  have xcs: "x \<notin> set cs" using child_list_member(2) [OF cl, of x] px by auto
  have ncs: "n \<notin> set cs" by (rule tree_inv_not_own_child [OF inv n cl])
  from xcs ecs have xe: "x \<noteq> e" by auto
  from ncs ecs have en: "e \<noteq> n" by auto
  have mem_pre: "\<And>c. c \<in> set pre \<Longrightarrow> c \<in> set cs" using cs by simp
  have mem_post: "\<And>c. c \<in> set post \<Longrightarrow> c \<in> set cs" using cs by simp
  have pl: "live_opt s (last_opt pre)"
    by (rule live_opt_last_opt) (rule child_list_member(1) [OF cl mem_pre])
  have lp: "\<And>c. last_opt pre = Some c \<Longrightarrow> c \<in> set pre" by (rule last_opt_mem)
  have px': "last_opt pre \<noteq> Some x" using lp [of x] mem_pre [of x] xcs by auto
  have pe': "last_opt pre \<noteq> Some e" using lp [of e] epre by auto
  have pn': "last_opt pre \<noteq> Some n" using lp [of n] mem_pre [of n] ncs by auto
  have fe: "(if pre = [] then Some e else head_opt pre) = Some e \<longleftrightarrow> pre = []"
    using head_opt_mem [of pre e] epre by auto
  from insertBefore_effect [OF n x e xn xe en f prev_e pl px' pe' pn']
  obtain s' where r: "insertBefore s n x e = Done s'"
    and e1: "\<And>c. live s' c = live s c"
    and e2: "\<And>c. ptr s' c m_parent = (if c = x then ptr s e m_parent else ptr s c m_parent)"
    and e3: "\<And>c. ptr s' c m_previousSibling
               = (if c = x then last_opt pre else if c = e then Some x
                  else ptr s c m_previousSibling)"
    and e4: "\<And>c. ptr s' c m_nextSibling
               = (if c = x then Some e else if Some c = last_opt pre then Some x
                  else ptr s c m_nextSibling)"
    and e5: "\<And>c. ptr s' c m_firstChild
               = (if c = n \<and> (if pre = [] then Some e else head_opt pre) = Some e
                  then Some x else ptr s c m_firstChild)"
    and e6: "\<And>c. ptr s' c m_lastChild = ptr s c m_lastChild"
    by blast
  let ?cs' = "pre @ x # e # post"
  have seg1: "dlseg s' n None pre (Some x)"
  proof (rule dlseg_retarget [OF segpre dpre])
    fix c assume c: "c \<in> set pre"
    with xcs epre mem_pre [of c] have "c \<noteq> x" "c \<noteq> e" by auto
    with child_list_member [OF cl mem_pre [OF c]] e1 [of c] e2 [of c] e3 [of c] e4 [of c]
    show "live s' c \<and> ptr s' c m_parent = Some n
           \<and> ptr s' c m_previousSibling = ptr s c m_previousSibling
           \<and> ptr s' c m_nextSibling
               = (if last_opt pre = Some c then Some x else ptr s c m_nextSibling)"
      by auto
  qed
  have seg0: "dlseg s n (last_opt pre) (e # post) None"
    using segpost e pe prev_e next_e by simp
  have seg2: "dlseg s' n (Some x) (e # post) None"
  proof (rule dlseg_resource [OF seg0])
    show "distinct (e # post)" using epost dpost by simp
  next
    fix c assume c: "c \<in> set (e # post)"
    then have ccs: "c \<in> set cs" using cs by auto
    with xcs have cx: "c \<noteq> x" by auto
    have "Some c \<noteq> last_opt pre" using lp [of c] c epre disj by auto
    with cx child_list_member [OF cl ccs] e1 [of c] e2 [of c] e3 [of c] e4 [of c] c epost
    show "live s' c \<and> ptr s' c m_parent = Some n
           \<and> ptr s' c m_previousSibling
               = (if head_opt (e # post) = Some c then Some x else ptr s c m_previousSibling)
           \<and> ptr s' c m_nextSibling = ptr s c m_nextSibling"
      by auto
  qed
  have segx: "dlseg s' n (if pre = [] then None else last_opt pre) (x # e # post) None"
    using seg2 e1 [of x] e2 [of x] e3 [of x] e4 [of x] x pe by simp
  have dist': "distinct ?cs'"
    using dpre dpost epre epost disj xcs cs by auto
  have cl': "child_list s' n ?cs'"
    unfolding child_list_def dlseg_append
    using dist' seg1 segx e5 [of n] e6 [of n] f l fe
    by (simp add: head_opt_append last_opt_append last_opt_Cons)
  have "tree_inv s'"
  proof (rule tree_inv_change [OF inv n cl cl'])
    fix c show "live s' c \<longleftrightarrow> live s c \<and> (c \<in> set cs \<longrightarrow> c \<in> set ?cs')"
      using cs by (auto simp: e1)
  next
    fix c assume "c \<in> set cs" "c \<notin> set ?cs'"
    then show "ptr s c m_firstChild = None" using cs by auto
  next
    fix c assume "c \<in> set ?cs'" "c \<notin> set cs"
    then show "ptr s c m_parent = None \<and> c \<noteq> n" using px xn cs by auto
  next
    fix c assume c: "live s c" "c \<notin> set cs" "c \<notin> set ?cs'"
    then have "c \<noteq> x" "c \<noteq> e" "Some c \<noteq> last_opt pre"
      using lp [of c] mem_pre [of c] by auto
    then show "ptr s' c m_parent = ptr s c m_parent
                  \<and> ptr s' c m_previousSibling = ptr s c m_previousSibling
                  \<and> ptr s' c m_nextSibling = ptr s c m_nextSibling"
      by (simp add: e2 e3 e4)
  next
    fix m assume "live s' m" "m \<noteq> n"
    then show "ptr s' m m_firstChild = ptr s m m_firstChild
                  \<and> ptr s' m m_lastChild = ptr s m m_lastChild"
      by (simp add: e5 e6)
  qed
  with r show ?thesis by blast
qed

lemma removeChild_unlink_inv:
  assumes inv: "tree_inv s" and n: "live s n" and c: "live s c"
    and pc: "ptr s c m_parent = Some n" and leaf: "ptr s c m_firstChild = None"
  shows "\<exists>s'. removeChild_unlink s n c = Done s' \<and> tree_inv s'"
proof -
  from tree_inv_parent(3) [OF inv c pc] obtain cs where cl: "child_list s n cs"
    and ccs: "c \<in> set cs" by blast
  from child_list_split [OF cl ccs] obtain pre post where cs: "cs = pre @ c # post"
    and cpre: "c \<notin> set pre" and cpost: "c \<notin> set post"
    and dpre: "distinct pre" and dpost: "distinct post" and disj: "set pre \<inter> set post = {}"
    and segpre: "dlseg s n None pre (Some c)" and segpost: "dlseg s n (Some c) post None"
    and prev_c: "ptr s c m_previousSibling = last_opt pre"
    and next_c: "ptr s c m_nextSibling = head_opt post"
    and f: "ptr s n m_firstChild = (if pre = [] then Some c else head_opt pre)"
    and l: "ptr s n m_lastChild = (if post = [] then Some c else last_opt post)" .
  have ncs: "n \<notin> set cs" by (rule tree_inv_not_own_child [OF inv n cl])
  from ncs ccs have cn: "c \<noteq> n" by auto
  have mem_pre: "\<And>d. d \<in> set pre \<Longrightarrow> d \<in> set cs" using cs by simp
  have mem_post: "\<And>d. d \<in> set post \<Longrightarrow> d \<in> set cs" using cs by simp
  have pl: "live_opt s (last_opt pre)"
    by (rule live_opt_last_opt) (rule child_list_member(1) [OF cl mem_pre])
  have nl: "live_opt s (head_opt post)"
    by (rule live_opt_head_opt) (rule child_list_member(1) [OF cl mem_post])
  have lp: "\<And>d. last_opt pre = Some d \<Longrightarrow> d \<in> set pre" by (rule last_opt_mem)
  have hp: "\<And>d. head_opt post = Some d \<Longrightarrow> d \<in> set post" by (rule head_opt_mem)
  have p1: "last_opt pre \<noteq> Some c" using lp [of c] cpre by auto
  have p2: "last_opt pre \<noteq> Some n" using lp [of n] mem_pre [of n] ncs by auto
  have n1: "head_opt post \<noteq> Some c" using hp [of c] cpost by auto
  have n2: "head_opt post \<noteq> Some n" using hp [of n] mem_post [of n] ncs by auto
  have fe: "(if pre = [] then Some c else head_opt pre) = Some c \<longleftrightarrow> pre = []"
    using head_opt_mem [of pre c] cpre by auto
  have le: "(if post = [] then Some c else last_opt post) = Some c \<longleftrightarrow> post = []"
    using last_opt_mem [of post c] cpost by auto
  from removeChild_unlink_effect [OF n c cn f l prev_c next_c pl nl p1 n1 p2 n2]
  obtain s' where r: "removeChild_unlink s n c = Done s'"
    and e1: "\<And>d. live s' d = (d \<noteq> c \<and> live s d)"
    and e2: "\<And>d. d \<noteq> c \<Longrightarrow> ptr s' d m_parent = ptr s d m_parent"
    and e3: "\<And>d. d \<noteq> c \<Longrightarrow> ptr s' d m_previousSibling
               = (if Some d = head_opt post then last_opt pre else ptr s d m_previousSibling)"
    and e4: "\<And>d. d \<noteq> c \<Longrightarrow> ptr s' d m_nextSibling
               = (if Some d = last_opt pre then head_opt post else ptr s d m_nextSibling)"
    and e5: "\<And>d. d \<noteq> c \<Longrightarrow> ptr s' d m_firstChild
               = (if d = n \<and> (if pre = [] then Some c else head_opt pre) = Some c
                  then head_opt post else ptr s d m_firstChild)"
    and e6: "\<And>d. d \<noteq> c \<Longrightarrow> ptr s' d m_lastChild
               = (if d = n \<and> (if post = [] then Some c else last_opt post) = Some c
                  then last_opt pre else ptr s d m_lastChild)"
    by blast
  let ?cs' = "pre @ post"
  have seg1: "dlseg s' n None pre (head_opt post)"
  proof (rule dlseg_retarget [OF segpre dpre])
    fix d assume d: "d \<in> set pre"
    with cpre have dc: "d \<noteq> c" by auto
    have "Some d \<noteq> head_opt post" using hp [of d] d disj by auto
    with dc child_list_member [OF cl mem_pre [OF d]] e1 [of d] e2 [of d] e3 [of d] e4 [of d]
    show "live s' d \<and> ptr s' d m_parent = Some n
           \<and> ptr s' d m_previousSibling = ptr s d m_previousSibling
           \<and> ptr s' d m_nextSibling
               = (if last_opt pre = Some d then head_opt post else ptr s d m_nextSibling)"
      by auto
  qed
  have seg2: "dlseg s' n (last_opt pre) post None"
  proof (rule dlseg_resource [OF segpost dpost])
    fix d assume d: "d \<in> set post"
    with cpost have dc: "d \<noteq> c" by auto
    have "Some d \<noteq> last_opt pre" using lp [of d] d disj by auto
    with dc child_list_member [OF cl mem_post [OF d]] e1 [of d] e2 [of d] e3 [of d] e4 [of d]
    show "live s' d \<and> ptr s' d m_parent = Some n
           \<and> ptr s' d m_previousSibling
               = (if head_opt post = Some d then last_opt pre else ptr s d m_previousSibling)
           \<and> ptr s' d m_nextSibling = ptr s d m_nextSibling"
      by auto
  qed
  have dist': "distinct ?cs'" using dpre dpost disj by simp
  have cl': "child_list s' n ?cs'"
    unfolding child_list_def dlseg_append
    using dist' seg1 seg2 e5 [OF cn [symmetric]] e6 [OF cn [symmetric]] f l fe le
    by (auto simp: head_opt_append last_opt_append)
  have "tree_inv s'"
  proof (rule tree_inv_change [OF inv n cl cl'])
    fix d show "live s' d \<longleftrightarrow> live s d \<and> (d \<in> set cs \<longrightarrow> d \<in> set ?cs')"
      using cs cpre cpost by (auto simp: e1)
  next
    fix d assume "d \<in> set cs" "d \<notin> set ?cs'"
    then have "d = c" using cs by auto
    then show "ptr s d m_firstChild = None" using leaf by simp
  next
    fix d assume "d \<in> set ?cs'" "d \<notin> set cs"
    then show "ptr s d m_parent = None \<and> d \<noteq> n" using cs by auto
  next
    fix d assume d: "live s d" "d \<notin> set cs" "d \<notin> set ?cs'"
    then have "d \<noteq> c" "Some d \<noteq> last_opt pre" "Some d \<noteq> head_opt post"
      using lp [of d] hp [of d] ccs by auto
    then show "ptr s' d m_parent = ptr s d m_parent
                  \<and> ptr s' d m_previousSibling = ptr s d m_previousSibling
                  \<and> ptr s' d m_nextSibling = ptr s d m_nextSibling"
      by (simp add: e2 e3 e4)
  next
    fix m assume "live s' m" "m \<noteq> n"
    then have "m \<noteq> c" by (simp add: e1)
    with \<open>m \<noteq> n\<close> show "ptr s' m m_firstChild = ptr s m m_firstChild
                  \<and> ptr s' m m_lastChild = ptr s m m_lastChild"
      by (simp add: e5 e6)
  qed
  with r show ?thesis by blast
qed

text \<open>The three ways \<^verbatim>\<open>removeChild\<close> ends on a tree; fuel 3 is enough for each.\<close>

lemma removeChild_not_child:
  assumes "live s n" "live s c" "ptr s c m_parent \<noteq> Some n"
  shows "removeChild (Suc fuel) s n c
           = Some (Raised (invalid_argument ''Referenced element is not a child.'') s)"
  using assms by simp

lemma removeChild_leaf:
  assumes "live s n" "live s c" "ptr s c m_parent = Some n" "ptr s c m_firstChild = None"
  shows "removeChild (Suc fuel) s n c = Some (removeChild_unlink s n c)"
  using assms by simp

lemma removeChild_with_children:
  assumes "live s n" "live s c" "ptr s c m_parent = Some n"
    and "ptr s c m_firstChild = Some p" "live s p" "ptr s p m_parent \<noteq> Some p"
  shows "removeChild (Suc (Suc (Suc fuel))) s n c
           = Some (Raised (invalid_argument ''Referenced element is not a child.'') s)"
  using assms by simp

lemma removeChild_inv:
  assumes inv: "tree_inv s" and n: "live s n" and c: "live s c" and fuel: "3 \<le> fuel"
  shows "\<exists>s'. tree_inv s' \<and>
           (removeChild fuel s n c = Some (Done s')
            \<or> removeChild fuel s n c
                = Some (Raised (invalid_argument ''Referenced element is not a child.'') s'))"
proof -
  from fuel obtain k where k: "fuel = Suc (Suc (Suc k))"
    by (metis Suc_le_D numeral_3_eq_3 Suc_le_mono)
  show ?thesis
  proof (cases "ptr s c m_parent = Some n")
    case False
    from removeChild_not_child [OF n c False, of "Suc (Suc k)"] inv k show ?thesis by auto
  next
    case True
    show ?thesis
    proof (cases "ptr s c m_firstChild")
      case None
      from removeChild_unlink_inv [OF inv n c True None]
      obtain s' where "removeChild_unlink s n c = Done s'" "tree_inv s'" by blast
      with removeChild_leaf [OF n c True None, of "Suc (Suc k)"] k show ?thesis by auto
    next
      case (Some p)
      from tree_inv_children [OF inv c] obtain cc where cc: "child_list s c cc" by blast
      with Some have "head_opt cc = Some p" by (simp add: child_list_def)
      then have "p \<in> set cc" by (rule head_opt_mem)
      from child_list_member [OF cc this] have lp: "live s p" and pp: "ptr s p m_parent = Some c"
        by simp_all
      from tree_inv_parent(1) [OF inv lp pp] pp have "ptr s p m_parent \<noteq> Some p" by auto
      from removeChild_with_children [OF n c True Some lp this, of k] inv k
      show ?thesis by auto
    qed
  qed
qed

subsection \<open>Sequences of operations\<close>

lemma exec_op_inv:
  assumes inv: "tree_inv s" and ok: "op_ok s x" and fuel: "3 \<le> fuel"
  shows "\<exists>s'. tree_inv s' \<and>
           (exec_op fuel s x = Some (Done s') \<or> (\<exists>e. exec_op fuel s x = Some (Raised e s')))"
proof (cases x)
  case (AppendChild n c)
  with ok appendChild_inv [OF inv, of n c] show ?thesis by auto
next
  case (InsertBefore n c e)
  with ok insertBefore_inv [OF inv, of n c e] show ?thesis by auto
next
  case (RemoveChild n c)
  with ok removeChild_inv [OF inv _ _ fuel, of n c] show ?thesis by auto
qed

lemma run_ops_inv:
  assumes "tree_inv s" and "ops_ok fuel s ops" and "3 \<le> fuel"
  shows "\<exists>s'. run_ops fuel s ops = Some s' \<and> tree_inv s'"
  using assms(1,2)
proof (induction ops arbitrary: s)
  case Nil
  then show ?case by simp
next
  case (Cons x xs)
  from Cons.prems(2) have ok: "op_ok s x" by simp
  from exec_op_inv [OF Cons.prems(1) ok assms(3)] obtain s1 where inv1: "tree_inv s1"
    and ex: "exec_op fuel s x = Some (Done s1) \<or> (\<exists>e. exec_op fuel s x = Some (Raised e s1))"
    by blast
  from ex Cons.prems(2) have ok1: "ops_ok fuel s1 xs" by auto
  from Cons.IH [OF inv1 ok1] ex show ?case by auto
qed

lemma tree_inv_consistent:
  assumes "tree_inv s" and "live s n"
  shows "\<exists>cs. children_consistent s n cs"
  using tree_inv_children [OF assms] child_list_consistent by blast

text \<open>
  C1, for the arguments the operations are meant for (\<open>ops_ok\<close>): every argument is a
  live element, the new child of \<^verbatim>\<open>appendChild\<close> and \<^verbatim>\<open>insertBefore\<close> has no parent and is not
  the receiver, and the existing element of \<^verbatim>\<open>insertBefore\<close> is a child of the receiver.
  From a state that satisfies the tree invariant, every sequence of such \<^verbatim>\<open>appendChild\<close>,
  \<^verbatim>\<open>insertBefore\<close> and \<^verbatim>\<open>removeChild\<close> calls runs to a final state (no undefined behaviour,
  and fuel 3 suffices for the recursion of \<^verbatim>\<open>removeChild\<close>), the final state satisfies the
  invariant, and in it every live element has a consistent child list: the forward walk
  from \<^verbatim>\<open>firstChild\<close> visits a sequence of children and ends at null, the backward walk
  from \<^verbatim>\<open>lastChild\<close> visits the reverse sequence, and every element of the sequence has
  the element as its parent.
\<close>

theorem child_lists_stay_consistent:
  assumes "tree_inv s" and "ops_ok fuel s ops" and "3 \<le> fuel"
  shows "\<exists>s'. run_ops fuel s ops = Some s' \<and> tree_inv s'
            \<and> (\<forall>n. live s' n \<longrightarrow> (\<exists>cs. children_consistent s' n cs))"
proof -
  from run_ops_inv [OF assms] obtain s' where "run_ops fuel s ops = Some s'" and "tree_inv s'"
    by blast
  with tree_inv_consistent [of s'] show ?thesis by blast
qed

lemma live_example_doc:
  "live example_doc n \<longleftrightarrow> n = 1 \<or> n = 2 \<or> n = 3 \<or> n = 4 \<or> n = 5 \<or> n = 6"
  by (auto simp: example_doc_def live_def)

lemma child_lists_example_doc:
  "child_list example_doc 1 [2, 3]" "child_list example_doc 2 [5]"
  "child_list example_doc 3 []" "child_list example_doc 4 []"
  "child_list example_doc 5 []" "child_list example_doc 6 []"
  by (simp_all add: child_list_def example_doc_def heap_defs last_opt_def)

lemma parents_example_doc:
  "ptr example_doc 1 m_parent = None" "ptr example_doc 2 m_parent = Some 1"
  "ptr example_doc 3 m_parent = Some 1" "ptr example_doc 4 m_parent = None"
  "ptr example_doc 5 m_parent = Some 2" "ptr example_doc 6 m_parent = None"
  by (simp_all add: example_doc_def heap_defs)

lemma siblings_example_doc:
  "ptr example_doc 1 m_nextSibling = None" "ptr example_doc 1 m_previousSibling = None"
  "ptr example_doc 4 m_nextSibling = None" "ptr example_doc 4 m_previousSibling = None"
  "ptr example_doc 6 m_nextSibling = None" "ptr example_doc 6 m_previousSibling = None"
  by (simp_all add: example_doc_def heap_defs)

lemma tree_inv_example_doc: "tree_inv example_doc"
  unfolding tree_inv_def
proof (intro conjI allI impI)
  fix n assume "live example_doc n"
  then show "\<exists>cs. child_list example_doc n cs"
    using child_lists_example_doc by (auto simp: live_example_doc)
next
  fix c p assume "live example_doc c" "ptr example_doc c m_parent = Some p"
  then consider "c = 2" "p = 1" | "c = 3" "p = 1" | "c = 5" "p = 2"
    using parents_example_doc by (auto simp: live_example_doc)
  then have "p \<noteq> c \<and> live example_doc p \<and> (\<exists>cs. child_list example_doc p cs \<and> c \<in> set cs)"
  proof cases
    case 1
    with child_lists_example_doc(1) show ?thesis
      by (auto simp: live_example_doc intro!: exI [of _ "[2, 3]"])
  next
    case 2
    with child_lists_example_doc(1) show ?thesis
      by (auto simp: live_example_doc intro!: exI [of _ "[2, 3]"])
  next
    case 3
    with child_lists_example_doc(2) show ?thesis
      by (auto simp: live_example_doc intro!: exI [of _ "[5]"])
  qed
  then show "p \<noteq> c" "live example_doc p" "\<exists>cs. child_list example_doc p cs \<and> c \<in> set cs"
    by simp_all
next
  fix c assume "live example_doc c" "ptr example_doc c m_parent = None"
  then have c: "c = 1 \<or> c = 4 \<or> c = 6"
    using parents_example_doc by (auto simp: live_example_doc)
  then show "ptr example_doc c m_nextSibling = None"
    using siblings_example_doc by auto
  from c show "ptr example_doc c m_previousSibling = None"
    using siblings_example_doc by auto
qed

text \<open>
  A run on the example document: \<open>4\<close> is appended to the root, \<open>6\<close> is inserted before
  \<open>3\<close>, \<open>3\<close> is removed, and the removal of \<open>2\<close>, which has a child, throws.
\<close>

lemma ops_ok_example_doc:
  "ops_ok 3 example_doc [AppendChild 1 4, InsertBefore 1 6 3, RemoveChild 1 3, RemoveChild 1 2]"
  by (simp add: numeral_3_eq_3 appendChild_def insertBefore_def removeChild_unlink_def
        erase_index_of_def getAttribute_indexBy_def erase_element_def example_doc_def
        heap_defs Let_def)

lemma run_ops_example_doc:
  "\<exists>s'. run_ops 3 example_doc
           [AppendChild 1 4, InsertBefore 1 6 3, RemoveChild 1 3, RemoveChild 1 2] = Some s'
     \<and> children_consistent s' 1 [2, 6, 4] \<and> children_consistent s' 2 [5] \<and> \<not> live s' 3"
  by (simp add: numeral_3_eq_3 appendChild_def insertBefore_def removeChild_unlink_def
        erase_index_of_def getAttribute_indexBy_def erase_element_def example_doc_def
        heap_defs Let_def children_consistent_def)

theorem child_lists_stay_consistent_witness:
  "tree_inv example_doc
   \<and> ops_ok 3 example_doc
       [AppendChild 1 4, InsertBefore 1 6 3, RemoveChild 1 3, RemoveChild 1 2]
   \<and> (3 :: nat) \<le> 3
   \<and> (\<exists>s'. run_ops 3 example_doc
               [AppendChild 1 4, InsertBefore 1 6 3, RemoveChild 1 3, RemoveChild 1 2] = Some s'
          \<and> tree_inv s'
          \<and> (\<forall>n. live s' n \<longrightarrow> (\<exists>cs. children_consistent s' n cs))
          \<and> children_consistent s' 1 [2, 6, 4])"
proof -
  have h3: "(3 :: nat) \<le> 3" by simp
  from child_lists_stay_consistent [OF tree_inv_example_doc ops_ok_example_doc h3]
  obtain s' where r: "run_ops 3 example_doc
        [AppendChild 1 4, InsertBefore 1 6 3, RemoveChild 1 3, RemoveChild 1 2] = Some s'"
    and inv: "tree_inv s'"
    and cons: "\<forall>n. live s' n \<longrightarrow> (\<exists>cs. children_consistent s' n cs)"
    by blast
  from run_ops_example_doc r have "children_consistent s' 1 [2, 6, 4]" by auto
  with r inv cons tree_inv_example_doc ops_ok_example_doc h3 show ?thesis by blast
qed

subsection \<open>Arguments that are already attached\<close>

lemma walk_next_cycle:
  assumes ab: "ptr s a m_nextSibling = Some b" and ba: "ptr s b m_nextSibling = Some a"
  shows "\<not> walk_next s (Some a) cs \<and> \<not> walk_next s (Some b) cs"
proof (induction cs)
  case Nil
  show ?case by simp
next
  case (Cons c cs)
  with ab ba show ?case by auto
qed

lemma single_child_with_previous:
  assumes f: "ptr s n m_firstChild = Some c" and l: "ptr s n m_lastChild = Some c"
    and nx: "ptr s c m_nextSibling = None" and pv: "ptr s c m_previousSibling = Some d"
  shows "\<not> children_consistent s n cs"
proof
  assume cc: "children_consistent s n cs"
  then have w: "walk_next s (Some c) cs" and b: "walk_prev s (Some c) (rev cs)"
    using f l by (simp_all add: children_consistent_def)
  from w obtain cs' where cs: "cs = c # cs'" and w': "walk_next s None cs'"
    using nx by (cases cs) auto
  from w' have "cs' = []" by (cases cs') auto
  with cs b pv show False by simp
qed

lemma appendChild_own_child_example:
  "\<exists>s'. run_ops 3 example_doc [AppendChild 1 2] = Some s'
        \<and> live s' 1 \<and> ptr s' 1 m_firstChild = Some 2
        \<and> ptr s' 2 m_nextSibling = Some 3 \<and> ptr s' 3 m_nextSibling = Some 2"
  by (simp add: appendChild_def example_doc_def heap_defs Let_def)

lemma insertBefore_other_parent_example:
  "\<exists>s'. run_ops 3 example_doc [InsertBefore 1 4 5] = Some s'
        \<and> live s' 2 \<and> ptr s' 2 m_firstChild = Some 5 \<and> ptr s' 2 m_lastChild = Some 5
        \<and> ptr s' 5 m_nextSibling = None \<and> ptr s' 5 m_previousSibling = Some 4"
  by (simp add: insertBefore_def example_doc_def heap_defs Let_def)

text \<open>
  C1, for every sequence, as the claim states it, fails.  The example document satisfies
  the tree invariant.  Appending to the root \<open>1\<close> its own first child \<open>2\<close> links \<open>2\<close> behind
  the last child \<open>3\<close> without unlinking it: the forward walk from the first child of \<open>1\<close>
  goes \<open>2\<close>, \<open>3\<close>, \<open>2\<close>, \<open>3\<close> and never reaches null.  Inserting the new element \<open>4\<close> on the
  root before \<open>5\<close>, which is a child of \<open>2\<close> and not of the root, leaves \<open>5\<close> as the first
  and last child of \<open>2\<close> with the previous sibling \<open>4\<close>: the backward walk from the last
  child of \<open>2\<close> visits \<open>5\<close> and \<open>4\<close>, the forward walk only \<open>5\<close>.
\<close>

theorem child_lists_break_on_attached_arguments:
  "tree_inv example_doc
   \<and> (\<exists>s'. run_ops 3 example_doc [AppendChild 1 2] = Some s'
          \<and> live s' 1 \<and> ptr s' 1 m_firstChild = Some 2
          \<and> ptr s' 2 m_nextSibling = Some 3 \<and> ptr s' 3 m_nextSibling = Some 2
          \<and> (\<forall>cs. \<not> children_consistent s' 1 cs))
   \<and> (\<exists>s'. run_ops 3 example_doc [InsertBefore 1 4 5] = Some s'
          \<and> live s' 2 \<and> ptr s' 2 m_firstChild = Some 5 \<and> ptr s' 2 m_lastChild = Some 5
          \<and> ptr s' 5 m_nextSibling = None \<and> ptr s' 5 m_previousSibling = Some 4
          \<and> (\<forall>cs. \<not> children_consistent s' 2 cs))"
proof (intro conjI)
  show "tree_inv example_doc" by (rule tree_inv_example_doc)
next
  from appendChild_own_child_example obtain s' where
    r: "run_ops 3 example_doc [AppendChild 1 2] = Some s'" "live s' 1"
       "ptr s' 1 m_firstChild = Some 2"
       "ptr s' 2 m_nextSibling = Some 3" "ptr s' 3 m_nextSibling = Some 2"
    by blast
  have "\<not> children_consistent s' 1 cs" for cs
    using walk_next_cycle [OF r(4) r(5), of cs] r(3) by (simp add: children_consistent_def)
  with r show "\<exists>s'. run_ops 3 example_doc [AppendChild 1 2] = Some s'
          \<and> live s' 1 \<and> ptr s' 1 m_firstChild = Some 2
          \<and> ptr s' 2 m_nextSibling = Some 3 \<and> ptr s' 3 m_nextSibling = Some 2
          \<and> (\<forall>cs. \<not> children_consistent s' 1 cs)"
    by blast
next
  from insertBefore_other_parent_example obtain s' where
    r: "run_ops 3 example_doc [InsertBefore 1 4 5] = Some s'" "live s' 2"
       "ptr s' 2 m_firstChild = Some 5" "ptr s' 2 m_lastChild = Some 5"
       "ptr s' 5 m_nextSibling = None" "ptr s' 5 m_previousSibling = Some 4"
    by blast
  have "\<not> children_consistent s' 2 cs" for cs
    by (rule single_child_with_previous [OF r(3) r(4) r(5) r(6)])
  with r show "\<exists>s'. run_ops 3 example_doc [InsertBefore 1 4 5] = Some s'
          \<and> live s' 2 \<and> ptr s' 2 m_firstChild = Some 5 \<and> ptr s' 2 m_lastChild = Some 5
          \<and> ptr s' 5 m_nextSibling = None \<and> ptr s' 5 m_previousSibling = Some 4
          \<and> (\<forall>cs. \<not> children_consistent s' 2 cs)"
    by blast
qed

section \<open>Two ingestions in one program\<close>

text \<open>
  The parser context is one function-local static: the context that the first call of
  \<^verbatim>\<open>ingestMarkup\<close> leaves is the context the second call starts with.
\<close>

lemma tokenize_hello_any:
  "tokenize (pc_init\<lparr>elementStack := st, parsedData := items\<rparr>) ''<div id=x><p>Hello</p></div>'' =
     pc_init\<lparr>elementStack := st, parsedData := items @ hello_items False\<rparr>"
  by (simp add: tokenize_defs hello_items_def)

lemma build_first:
  "build other two_fresh [1] [] (hello_items False) = Done (after_first, [1], hello_items True)"
  by (simp add: hello_items_def after_first_def two_fresh_def createElement_def appendChild_def
        setAttribute_indexBy_def updateIndexBy_def index_insert_def heap_defs Let_def)
     (auto simp: fun_eq_iff)

lemma build_second:
  "build other after_first [1] [] (hello_items True @ hello_items False)
     = Done (after_second, [1], hello_items True @ hello_items True)"
  by (simp add: hello_items_def after_first_def after_second_def createElement_def
        appendChild_def setAttribute_indexBy_def updateIndexBy_def index_insert_def heap_defs
        Let_def)
     (auto simp: fun_eq_iff)

lemma ingestMarkup_unfold:
  "ingestMarkup other s pc node markup =
     (case build other s
             (elementStack (tokenize (if elementStack pc = [] then pc\<lparr>elementStack := [node]\<rparr> else pc) markup))
             []
             (parsedData (tokenize (if elementStack pc = [] then pc\<lparr>elementStack := [node]\<rparr> else pc) markup)) of
        Done (s', stack', items') \<Rightarrow>
          (if stack' = [] then Undefined
           else Done (s', (tokenize (if elementStack pc = [] then pc\<lparr>elementStack := [node]\<rparr> else pc) markup)
                            \<lparr>parsedData := items', elementStack := stack'\<rparr>))
      | Raised x (s', stack', items') \<Rightarrow>
          Raised x (s', (tokenize (if elementStack pc = [] then pc\<lparr>elementStack := [node]\<rparr> else pc) markup)
                            \<lparr>parsedData := items', elementStack := stack'\<rparr>)
      | Undefined \<Rightarrow> Undefined)"
  unfolding ingestMarkup_def Let_def by (rule refl)

lemma ingest_tokenized:
  assumes t: "tokenize (if elementStack pc = [] then pc\<lparr>elementStack := [node]\<rparr> else pc) markup
              = pc_init\<lparr>elementStack := st, parsedData := items\<rparr>"
    and b: "build other s st [] items = r"
  shows "ingestMarkup other s pc node markup =
     (case r of
        Done (s', stack', items') \<Rightarrow>
          (if stack' = [] then Undefined
           else Done (s', pc_init\<lparr>elementStack := stack', parsedData := items'\<rparr>))
      | Raised x (s', stack', items') \<Rightarrow>
          Raised x (s', pc_init\<lparr>elementStack := stack', parsedData := items'\<rparr>)
      | Undefined \<Rightarrow> Undefined)"
proof -
  have st: "elementStack (pc_init\<lparr>elementStack := st, parsedData := items\<rparr>) = st" by simp
  have it: "parsedData (pc_init\<lparr>elementStack := st, parsedData := items\<rparr>) = items" by simp
  have up: "\<And>i k. (pc_init\<lparr>elementStack := st, parsedData := items\<rparr>)\<lparr>parsedData := i, elementStack := k\<rparr>
               = pc_init\<lparr>elementStack := k, parsedData := i\<rparr>" by simp
  show ?thesis
    unfolding ingestMarkup_unfold t st it up b by (rule refl)
qed

lemma ingestMarkup_first_call:
  "ingestMarkup other two_fresh pc_init 1 ''<div id=x><p>Hello</p></div>''
     = Done (after_first, pc_init\<lparr>elementStack := [1], parsedData := hello_items True\<rparr>)"
proof -
  have pc0: "(if elementStack pc_init = [] then pc_init\<lparr>elementStack := [1]\<rparr> else pc_init)
               = pc_init\<lparr>elementStack := [1], parsedData := []\<rparr>"
    by (simp add: pc_init_def)
  have t: "tokenize (if elementStack pc_init = [] then pc_init\<lparr>elementStack := [1]\<rparr> else pc_init)
             ''<div id=x><p>Hello</p></div>''
           = pc_init\<lparr>elementStack := [1], parsedData := hello_items False\<rparr>"
    unfolding pc0 tokenize_hello_any by simp
  show ?thesis
    unfolding ingest_tokenized [OF t build_first] by simp
qed

lemma ingestMarkup_second_call:
  "ingestMarkup other after_first (pc_init\<lparr>elementStack := [1], parsedData := hello_items True\<rparr>) 2
      ''<div id=x><p>Hello</p></div>''
     = Done (after_second,
             pc_init\<lparr>elementStack := [1], parsedData := hello_items True @ hello_items True\<rparr>)"
proof -
  let ?pc = "pc_init\<lparr>elementStack := [1], parsedData := hello_items True\<rparr>"
  have pc0: "(if elementStack ?pc = [] then ?pc\<lparr>elementStack := [2]\<rparr> else ?pc) = ?pc"
    by simp
  have t: "tokenize (if elementStack ?pc = [] then ?pc\<lparr>elementStack := [2]\<rparr> else ?pc)
             ''<div id=x><p>Hello</p></div>''
           = pc_init\<lparr>elementStack := [1], parsedData := hello_items True @ hello_items False\<rparr>"
    unfolding pc0 by (rule tokenize_hello_any)
  show ?thesis
    unfolding ingest_tokenized [OF t build_second] by simp
qed

text \<open>
  C3.  The claim is that ingesting \<open><div id=x><p>Hello</p></div>\<close> against a fresh root
  gives that root exactly one new child, the \<open>DIV\<close> with id \<open>x\<close>.  The code does so only for
  the first ingestion of a program.  In a document with the two fresh roots \<open>1\<close> and \<open>2\<close>,
  the ingestion against \<open>1\<close> builds the \<open>DIV\<close> \<open>3\<close> (id \<open>x\<close>) with the \<open>PARAGRAPH\<close> \<open>4\<close> (payload
  \<open>Hello\<close>) under \<open>1\<close> and leaves \<open>1\<close> on the stack of the static parser context.  The
  ingestion of the same markup against the fresh root \<open>2\<close> then finds the stack not empty
  and does not push its target: the new \<open>DIV\<close> \<open>5\<close> becomes a second child of \<open>1\<close>, the root
  \<open>2\<close> gets no child at all, and the call returns \<open>1\<close>.
\<close>

theorem ingestMarkup_second_root_gets_no_child:
  "ingestMarkup other two_fresh pc_init 1 ''<div id=x><p>Hello</p></div>''
     = Done (after_first, pc_init\<lparr>elementStack := [1], parsedData := hello_items True\<rparr>)
   \<and> ingestMarkup other after_first
        (pc_init\<lparr>elementStack := [1], parsedData := hello_items True\<rparr>) 2
        ''<div id=x><p>Hello</p></div>''
     = Done (after_second,
             pc_init\<lparr>elementStack := [1], parsedData := hello_items True @ hello_items True\<rparr>)
   \<and> elements after_first 2 = Some (new_Element DIV)
   \<and> elements after_second 2 = Some (new_Element DIV)
   \<and> ptr after_second 2 m_firstChild = None \<and> ptr after_second 2 m_lastChild = None
   \<and> ptr after_second 1 m_firstChild = Some 3 \<and> ptr after_second 1 m_lastChild = Some 5
   \<and> ptr after_second 5 m_parent = Some 1
   \<and> ingestMarkup_ret
        (pc_init\<lparr>elementStack := [1], parsedData := hello_items True @ hello_items True\<rparr>)
      = Some 1"
proof -
  have "elements after_first 2 = Some (new_Element DIV)"
    and "elements after_second 2 = Some (new_Element DIV)"
    and "ptr after_second 2 m_firstChild = None" and "ptr after_second 2 m_lastChild = None"
    and "ptr after_second 1 m_firstChild = Some 3" and "ptr after_second 1 m_lastChild = Some 5"
    and "ptr after_second 5 m_parent = Some 1"
    by (simp_all add: after_first_def after_second_def heap_defs)
  moreover have "ingestMarkup_ret
        (pc_init\<lparr>elementStack := [1], parsedData := hello_items True @ hello_items True\<rparr>)
      = Some 1"
    by (simp add: ingestMarkup_ret_def)
  ultimately show ?thesis
    using ingestMarkup_first_call [of other] ingestMarkup_second_call [of other] by simp
qed

end
